theory Spec2Isabelle
  imports Main "HOL-Library.Word"
begin

unbundle bit_operations_syntax

section \<open>Character classifier (nepeta\_traits.h)\<close>

text \<open>
  The library is instantiated for \<open>char\<close>. A byte is an Isabelle \<open>char\<close>; \<open>char_code\<close>
  reads it the way the comparisons of \<open>traits<char>\<close> do on a platform where \<open>char\<close> is
  signed (bytes from 0x80 are negative). With an unsigned \<open>char\<close> every predicate below
  takes the same value, since no comparison separates the two readings.
\<close>

definition char_code :: "char \<Rightarrow> int" where
  "char_code ch = (if (of_char ch :: nat) < 128 then int (of_char ch) else int (of_char ch) - 256)"

definition c_nullchar :: char where "c_nullchar = CHR 0x00"
definition c_audible_bell :: char where "c_audible_bell = CHR 0x07"
definition c_backspace :: char where "c_backspace = CHR 0x08"
definition c_form_feed :: char where "c_form_feed = CHR 0x0C"
definition c_newline :: char where "c_newline = CHR 0x0A"
definition c_carriage_return :: char where "c_carriage_return = CHR 0x0D"
definition c_vertical_tab :: char where "c_vertical_tab = CHR 0x0B"
definition c_single_quote :: char where "c_single_quote = CHR 0x27"
definition c_double_quote :: char where "c_double_quote = CHR 0x22"
definition c_backslash :: char where "c_backslash = CHR 0x5C"
definition c_space :: char where "c_space = CHR '' ''"
definition c_tab :: char where "c_tab = CHR 0x09"
definition c_block_data_open :: char where "c_block_data_open = CHR ''{''"
definition c_block_data_close :: char where "c_block_data_close = CHR ''}''"
definition c_end_of_data_context :: char where "c_end_of_data_context = CHR '';''"
definition c_comment_marker :: char where "c_comment_marker = CHR ''/''"
definition c_comment_multiline_marker :: char where "c_comment_multiline_marker = CHR ''*''"
definition c_nested_node_marker :: char where "c_nested_node_marker = CHR ''#''"
definition c_plus_sign :: char where "c_plus_sign = CHR ''+''"
definition c_minus_sign :: char where "c_minus_sign = CHR ''-''"

definition esc_nullchar :: char where "esc_nullchar = CHR ''0''"
definition esc_audible_bell :: char where "esc_audible_bell = CHR ''a''"
definition esc_backspace :: char where "esc_backspace = CHR ''b''"
definition esc_form_feed :: char where "esc_form_feed = CHR ''f''"
definition esc_newline :: char where "esc_newline = CHR ''n''"
definition esc_carriage_return :: char where "esc_carriage_return = CHR ''r''"
definition esc_tab :: char where "esc_tab = CHR ''t''"
definition esc_vertical_tab :: char where "esc_vertical_tab = CHR ''v''"

definition true_value :: string where "true_value = ''true''"
definition false_value :: string where "false_value = ''false''"
definition base64_encoding_table :: string where
  "base64_encoding_table = ''ABCDEFGHIJKLMNOPQRSTUVWXYZabcdefghijklmnopqrstuvwxyz0123456789+/''"
definition base64_padding_character :: char where "base64_padding_character = CHR ''=''"
definition base64_codec :: string where "base64_codec = ''base64''"
definition text_codec :: string where "text_codec = ''text''"

lemmas char_consts =
  c_nullchar_def c_audible_bell_def c_backspace_def c_form_feed_def c_newline_def
  c_carriage_return_def c_vertical_tab_def c_single_quote_def c_double_quote_def
  c_backslash_def c_space_def c_tab_def c_block_data_open_def c_block_data_close_def
  c_end_of_data_context_def c_comment_marker_def c_comment_multiline_marker_def
  c_nested_node_marker_def c_plus_sign_def c_minus_sign_def
  esc_nullchar_def esc_audible_bell_def esc_backspace_def esc_form_feed_def esc_newline_def
  esc_carriage_return_def esc_tab_def esc_vertical_tab_def base64_padding_character_def

definition is_whitespace :: "char \<Rightarrow> bool" where
  "is_whitespace ch \<longleftrightarrow> ch = c_space \<or> ch = c_tab"

definition is_newline :: "char \<Rightarrow> bool" where
  "is_newline ch \<longleftrightarrow> ch = c_newline \<or> ch = c_carriage_return"

definition is_binary :: "char \<Rightarrow> bool" where
  "is_binary ch \<longleftrightarrow>
     char_code ch \<ge> char_code c_nullchar \<and> char_code ch < char_code c_space
     \<and> \<not> is_whitespace ch \<and> \<not> is_newline ch"

definition is_end_of_data_context_marker :: "char \<Rightarrow> bool" where
  "is_end_of_data_context_marker ch \<longleftrightarrow> ch = c_end_of_data_context"

definition is_continue_data_context_on_next_line_marker :: "char \<Rightarrow> bool" where
  "is_continue_data_context_on_next_line_marker ch \<longleftrightarrow> ch = c_backslash"

definition is_comment_marker :: "char \<Rightarrow> bool" where
  "is_comment_marker ch \<longleftrightarrow> ch = c_comment_marker"

definition is_comment_multiline_marker :: "char \<Rightarrow> bool" where
  "is_comment_multiline_marker ch \<longleftrightarrow> ch = c_comment_multiline_marker"

definition is_string_marker :: "char \<Rightarrow> bool" where
  "is_string_marker ch \<longleftrightarrow> ch = c_double_quote"

definition is_block_start_marker :: "char \<Rightarrow> bool" where
  "is_block_start_marker ch \<longleftrightarrow> ch = c_block_data_open"

definition is_block_end_marker :: "char \<Rightarrow> bool" where
  "is_block_end_marker ch \<longleftrightarrow> ch = c_block_data_close"

definition is_nested_node_marker :: "char \<Rightarrow> bool" where
  "is_nested_node_marker ch \<longleftrightarrow> ch = c_nested_node_marker"

definition is_escape_character_marker :: "char \<Rightarrow> bool" where
  "is_escape_character_marker ch \<longleftrightarrow> ch = c_backslash"

definition is_identifier :: "char \<Rightarrow> bool" where
  "is_identifier ch \<longleftrightarrow>
     \<not> is_binary ch \<and> \<not> is_whitespace ch \<and> \<not> is_newline ch
     \<and> \<not> is_nested_node_marker ch \<and> \<not> is_string_marker ch
     \<and> \<not> is_end_of_data_context_marker ch
     \<and> \<not> is_continue_data_context_on_next_line_marker ch
     \<and> \<not> is_block_start_marker ch \<and> \<not> is_block_end_marker ch"

definition is_minus_sign :: "char \<Rightarrow> bool" where
  "is_minus_sign ch \<longleftrightarrow> ch = c_minus_sign"

definition is_plus_sign :: "char \<Rightarrow> bool" where
  "is_plus_sign ch \<longleftrightarrow> ch = c_plus_sign"

definition is_number_spacer :: "char \<Rightarrow> bool" where
  "is_number_spacer ch \<longleftrightarrow> ch = c_single_quote"

definition is_base64_padding_character :: "char \<Rightarrow> bool" where
  "is_base64_padding_character ch \<longleftrightarrow> ch = base64_padding_character"

definition is_number :: "char \<Rightarrow> bool" where
  "is_number ch \<longleftrightarrow> char_code ch \<ge> char_code (CHR ''0'') \<and> char_code ch \<le> char_code (CHR ''9'')"

text \<open>\<open>to_number\<close> returns \<open>unsigned int\<close>: the difference is converted modulo \<open>2 ^ 32\<close>.\<close>

definition to_number :: "char \<Rightarrow> nat" where
  "to_number ch = nat ((char_code ch - char_code (CHR ''0'')) mod 2 ^ 32)"

lemmas classifier_defs =
  is_whitespace_def is_newline_def is_binary_def is_end_of_data_context_marker_def
  is_continue_data_context_on_next_line_marker_def is_comment_marker_def
  is_comment_multiline_marker_def is_string_marker_def is_block_start_marker_def
  is_block_end_marker_def is_nested_node_marker_def is_escape_character_marker_def
  is_identifier_def is_minus_sign_def is_plus_sign_def is_number_spacer_def
  is_base64_padding_character_def is_number_def to_number_def char_code_def

section \<open>Documents (nepeta.h)\<close>

text \<open>
  \<open>basic_document\<close> holds an identifier, a sequence of data values and a sequence of
  children of the same type. The value type is a parameter: \<open>std::string\<close> for
  \<open>basic_document\<close>, a slice of the source buffer for \<open>basic_document_view\<close>.
  Equality (\<open>tie() == tie()\<close>) is equality of the three fields in order, which is the
  equality of the datatype.
\<close>

datatype 'd basic_document =
  Document (doc_id: 'd) (doc_data: "'d list") (doc_children: "'d basic_document list")

type_synonym document = "string basic_document"

section \<open>Algorithm helpers (nepeta\_algorithm.h)\<close>

text \<open>
  The helpers take the document by reference. The model returns the document next to the
  result, so that what a call leaves in \<open>doc\<close> is part of its value.
\<close>

definition opt_data :: "document \<Rightarrow> nat \<Rightarrow> string option \<times> document" where
  "opt_data doc index =
     (if index < length (doc_data doc) then Some (doc_data doc ! index) else None, doc)"

definition opt_bool :: "string \<Rightarrow> bool option" where
  "opt_bool view =
     (if view = true_value then Some True
      else if view = false_value then Some False
      else None)"

definition value_or :: "'a option \<Rightarrow> 'a \<Rightarrow> 'a" where
  "value_or opt default_value = (case opt of Some v \<Rightarrow> v | None \<Rightarrow> default_value)"

definition as_bool :: "string \<Rightarrow> bool \<Rightarrow> bool" where
  "as_bool view default_value = value_or (opt_bool view) default_value"

definition doc_opt_bool :: "document \<Rightarrow> nat \<Rightarrow> bool option \<times> document" where
  "doc_opt_bool doc index =
     (if index < length (doc_data doc) then opt_bool (doc_data doc ! index) else None, doc)"

definition doc_as_bool :: "document \<Rightarrow> nat \<Rightarrow> bool \<Rightarrow> bool \<times> document" where
  "doc_as_bool doc index default_value =
     (case doc_opt_bool doc index of (r, doc') \<Rightarrow> (value_or r default_value, doc'))"

text \<open>
  \<open>opt_integer<IntegerType>\<close>: the integer type is a machine integer of some width,
  here \<open>'a word\<close>; multiplication, addition and negation wrap around. The loop runs over
  the index \<open>i\<close>; the model carries \<open>i\<close> next to the bytes from \<open>i\<close> on.
\<close>

fun opt_integer_loop :: "nat \<Rightarrow> string \<Rightarrow> 'a::len word \<Rightarrow> bool \<Rightarrow> 'a word option" where
  "opt_integer_loop i [] result is_negative =
     Some (if is_negative then - result else result)"
| "opt_integer_loop i (ch # rest) result is_negative =
     (if i = 0 \<and> is_minus_sign ch then opt_integer_loop (i + 1) rest result True
      else if i = 0 \<and> is_plus_sign ch then opt_integer_loop (i + 1) rest result False
      else if is_number ch then
        opt_integer_loop (i + 1) rest (result * 10 + of_nat (to_number ch)) is_negative
      else if is_number_spacer ch then opt_integer_loop (i + 1) rest result is_negative
      else None)"

definition opt_integer :: "string \<Rightarrow> 'a::len word option" where
  "opt_integer view = opt_integer_loop 0 view 0 False"

definition as_integer :: "string \<Rightarrow> 'a::len word \<Rightarrow> 'a word" where
  "as_integer view default_value = value_or (opt_integer view) default_value"

definition doc_opt_integer :: "document \<Rightarrow> nat \<Rightarrow> 'a::len word option \<times> document" where
  "doc_opt_integer doc index =
     (if index < length (doc_data doc) then opt_integer (doc_data doc ! index) else None, doc)"

definition doc_as_integer :: "document \<Rightarrow> nat \<Rightarrow> 'a::len word \<Rightarrow> 'a word \<times> document" where
  "doc_as_integer doc index default_value =
     (case doc_opt_integer doc index of (r, doc') \<Rightarrow> (value_or r default_value, doc'))"

subsection \<open>The grammar of \<open>opt_integer\<close>, as the documentation words it\<close>

text \<open>
  The documentation of \<open>opt_integer\<close> gives the regular expression \<open>(-|+)?[0-9']*\<close>.
  \<open>integer_grammar\<close> is that expression; \<open>accumulated_value\<close> is the base-10 value of
  the digits of a byte string read left to right, every other byte skipped.
\<close>

definition is_digit_or_spacer :: "char \<Rightarrow> bool" where
  "is_digit_or_spacer ch \<longleftrightarrow> is_number ch \<or> is_number_spacer ch"

definition integer_grammar :: "string \<Rightarrow> bool" where
  "integer_grammar view =
     (case view of
        [] \<Rightarrow> True
      | ch # rest \<Rightarrow>
          (is_minus_sign ch \<or> is_plus_sign ch \<or> is_digit_or_spacer ch)
          \<and> list_all is_digit_or_spacer rest)"

definition accumulated_value :: "string \<Rightarrow> nat" where
  "accumulated_value view =
     foldl (\<lambda>acc ch. if is_number ch then acc * 10 + to_number ch else acc) 0 view"

definition has_leading_minus :: "string \<Rightarrow> bool" where
  "has_leading_minus view = (case view of [] \<Rightarrow> False | ch # _ \<Rightarrow> is_minus_sign ch)"

section \<open>Properties of the algorithm helpers\<close>

lemma sign_not_digit_or_spacer:
  "is_minus_sign ch \<Longrightarrow> \<not> is_number ch \<and> \<not> is_number_spacer ch"
  "is_plus_sign ch \<Longrightarrow> \<not> is_number ch \<and> \<not> is_number_spacer ch"
  by (simp_all add: is_minus_sign_def is_plus_sign_def is_number_def is_number_spacer_def char_code_def char_consts)

lemma opt_integer_loop_tail:
  "opt_integer_loop (Suc i) view (of_nat a) neg =
     (if list_all is_digit_or_spacer view
      then Some (if neg
                 then - of_nat (foldl (\<lambda>acc ch. if is_number ch then acc * 10 + to_number ch else acc) a view)
                 else of_nat (foldl (\<lambda>acc ch. if is_number ch then acc * 10 + to_number ch else acc) a view))
      else None)"
proof (induction view arbitrary: i a)
  case Nil
  show ?case by simp
next
  case (Cons ch view)
  have step: "(of_nat a * 10 + of_nat (to_number ch) :: 'a word) = of_nat (a * 10 + to_number ch)"
    by simp
  show ?case
  proof (cases "is_number ch")
    case True
    have "opt_integer_loop (Suc i) (ch # view) (of_nat a :: 'a word) neg
        = opt_integer_loop (Suc (Suc i)) view (of_nat (a * 10 + to_number ch)) neg"
      using True by (simp del: of_nat_add of_nat_mult add: step)
    also note Cons.IH [of "Suc i" "a * 10 + to_number ch"]
    finally show ?thesis using True by (simp add: is_digit_or_spacer_def [of ch])
  next
    case False
    have "opt_integer_loop (Suc i) (ch # view) (of_nat a :: 'a word) neg
        = (if is_number_spacer ch then opt_integer_loop (Suc (Suc i)) view (of_nat a) neg else None)"
      using False by simp
    also note Cons.IH [of "Suc i" a]
    finally show ?thesis using False by (simp add: is_digit_or_spacer_def [of ch])
  qed
qed

text \<open>
  Claim C9. \<open>opt_integer\<close> returns a value exactly on the byte strings of the grammar
  \<open>[-+]?[0-9']*\<close>; the value is the base-10 value of the digits (spacers skipped, so the
  empty string gives 0), negated when the first byte is \<open>-\<close> and not negated otherwise;
  on every other byte string, a sign after the first byte included, it returns nothing.
\<close>

theorem opt_integer_grammar:
  "(opt_integer view :: 'a::len word option) =
     (if integer_grammar view
      then Some (if has_leading_minus view
                 then - of_nat (accumulated_value view)
                 else of_nat (accumulated_value view))
      else None)"
proof (cases view)
  case Nil
  then show ?thesis
    by (simp add: opt_integer_def integer_grammar_def accumulated_value_def has_leading_minus_def)
next
  case (Cons ch rest)
  have tail0: "opt_integer_loop (Suc 0) rest (0 :: 'a word) neg =
     (if list_all is_digit_or_spacer rest
      then Some (if neg
                 then - of_nat (foldl (\<lambda>acc ch. if is_number ch then acc * 10 + to_number ch else acc) 0 rest)
                 else of_nat (foldl (\<lambda>acc ch. if is_number ch then acc * 10 + to_number ch else acc) 0 rest))
      else None)" for neg
    using opt_integer_loop_tail [of 0 rest 0 neg, where 'a = 'a] by simp
  have tail1: "opt_integer_loop (Suc 0) rest (of_nat (to_number ch) :: 'a word) neg =
     (if list_all is_digit_or_spacer rest
      then Some (if neg
                 then - of_nat (foldl (\<lambda>acc ch. if is_number ch then acc * 10 + to_number ch else acc) (to_number ch) rest)
                 else of_nat (foldl (\<lambda>acc ch. if is_number ch then acc * 10 + to_number ch else acc) (to_number ch) rest))
      else None)" for neg
    by (rule opt_integer_loop_tail)
  consider (minus) "is_minus_sign ch" | (plus) "\<not> is_minus_sign ch" "is_plus_sign ch"
    | (other) "\<not> is_minus_sign ch" "\<not> is_plus_sign ch"
    by blast
  then show ?thesis
  proof cases
    case minus
    with sign_not_digit_or_spacer(1) [OF minus] Cons show ?thesis
      by (simp add: opt_integer_def integer_grammar_def accumulated_value_def
          has_leading_minus_def tail0)
  next
    case plus
    with sign_not_digit_or_spacer(2) [OF plus(2)] Cons show ?thesis
      by (simp add: opt_integer_def integer_grammar_def accumulated_value_def
          has_leading_minus_def tail0)
  next
    case other
    with Cons show ?thesis
      by (simp add: opt_integer_def integer_grammar_def accumulated_value_def
          has_leading_minus_def tail0 tail1 is_digit_or_spacer_def [of ch])
  qed
qed

theorem opt_integer_grammar_witness:
  "(opt_integer ''-1'2'' :: 8 word option) = Some (- 12)
   \<and> (opt_integer ''+7'' :: 8 word option) = Some 7
   \<and> (opt_integer [] :: 8 word option) = Some 0
   \<and> (opt_integer ''1-2'' :: 8 word option) = None"
  using opt_integer_grammar [of "''-1'2''", where 'a = 8]
    opt_integer_grammar [of "''+7''", where 'a = 8]
    opt_integer_grammar [of "[]", where 'a = 8]
    opt_integer_grammar [of "''1-2''", where 'a = 8]
  by (simp add: integer_grammar_def has_leading_minus_def accumulated_value_def
      is_digit_or_spacer_def classifier_defs char_consts)

text \<open>
  Claim C10. With an index at or beyond \<open>doc.data.size()\<close>, \<open>opt_data\<close>,
  \<open>doc_opt_bool\<close> and \<open>doc_opt_integer\<close> return nothing, the \<open>doc_as_*\<close> variants
  return the default value they were given, and the document is the one passed in.
\<close>

theorem doc_helpers_out_of_bounds:
  assumes "length (doc_data doc) \<le> index"
  shows "opt_data doc index = (None, doc)
    \<and> doc_opt_bool doc index = (None, doc)
    \<and> (doc_opt_integer doc index :: 'a::len word option \<times> document) = (None, doc)
    \<and> doc_as_bool doc index default_bool = (default_bool, doc)
    \<and> doc_as_integer doc index (default_int :: 'a word) = (default_int, doc)"
  using assms
  by (simp add: opt_data_def doc_opt_bool_def doc_opt_integer_def doc_as_bool_def
      doc_as_integer_def value_or_def)

theorem doc_helpers_out_of_bounds_witness:
  "opt_data (Document [] [''true'', ''12''] []) 2 = (None, Document [] [''true'', ''12''] [])
   \<and> doc_opt_bool (Document [] [''true'', ''12''] []) 2 = (None, Document [] [''true'', ''12''] [])
   \<and> (doc_opt_integer (Document [] [''true'', ''12''] []) 2 :: 32 word option \<times> document)
       = (None, Document [] [''true'', ''12''] [])
   \<and> doc_as_bool (Document [] [''true'', ''12''] []) 2 True = (True, Document [] [''true'', ''12''] [])
   \<and> doc_as_integer (Document [] [''true'', ''12''] []) 2 (5 :: 32 word)
       = (5, Document [] [''true'', ''12''] [])"
  using doc_helpers_out_of_bounds [of "Document [] [''true'', ''12''] []" 2 True "5 :: 32 word"]
  by simp

section \<open>Base64 codec (nepeta\_base64.h)\<close>

text \<open>
  \<open>get\<close> of \<open>convert_to_base64_fragment\<close> reads \<open>input[idx]\<close> as an unsigned byte.
  The fragment of size 1 also reads \<open>input[1]\<close>, one past the last byte of the value; for a
  \<open>std::string\<close> that byte is the terminating NUL, which is what \<open>byte_at\<close> gives out of
  range.
\<close>

definition byte_at :: "string \<Rightarrow> nat \<Rightarrow> nat" where
  "byte_at input idx = (if idx < length input then of_char (input ! idx) else 0)"

definition table_at :: "nat \<Rightarrow> char" where
  "table_at k = base64_encoding_table ! k"

definition convert_to_base64_fragment :: "nat \<Rightarrow> string \<Rightarrow> string" where
  "convert_to_base64_fragment input_size input =
     (let output0 = table_at (drop_bit 2 (byte_at input 0) AND 0x3F);
          output1 = table_at (push_bit 4 (byte_at input 0 AND 0x03)
                      OR (drop_bit 4 (byte_at input 1) AND 0x0F));
          output2 = (if input_size \<ge> 2
                     then table_at (push_bit 2 (byte_at input 1 AND 0x0F)
                            OR (if input_size \<ge> 3 then drop_bit 6 (byte_at input 2) AND 0x03 else 0))
                     else base64_padding_character);
          output3 = (if input_size \<ge> 3 then table_at (byte_at input 2 AND 0x3F)
                     else base64_padding_character)
      in [output0, output1, output2, output3])"

text \<open>
  The decoding table \<open>base64_index[256]\<close>: 123 initialisers in rows of 16, the rest
  zero.
\<close>

definition base64_index_table :: "nat list" where
  "base64_index_table =
     [0,  0,  0,  0,  0,  0,  0,  0,  0,  0,  0,  0,  0,  0,  0,  0]
     @ [0,  0,  0,  0,  0,  0,  0,  0,  0,  0,  0,  0,  0,  0,  0,  0]
     @ [0,  0,  0,  0,  0,  0,  0,  0,  0,  0,  0,  62, 63, 62, 62, 63]
     @ [52, 53, 54, 55, 56, 57, 58, 59, 60, 61, 0,  0,  0,  0,  0,  0]
     @ [0,  0,  1,  2,  3,  4,  5,  6,  7,  8,  9,  10, 11, 12, 13, 14]
     @ [15, 16, 17, 18, 19, 20, 21, 22, 23, 24, 25, 0,  0,  0,  0,  63]
     @ [0,  26, 27, 28, 29, 30, 31, 32, 33, 34, 35, 36, 37, 38, 39, 40]
     @ [41, 42, 43, 44, 45, 46, 47, 48, 49, 50, 51]"

definition base64_index :: "char \<Rightarrow> nat" where
  "base64_index ch =
     (if (of_char ch :: nat) < length base64_index_table
      then base64_index_table ! of_char ch else 0)"

text \<open>
  \<open>convert_from_base64(p_out, size)\<close> decodes in place: \<open>p_in\<close> is \<open>p_out\<close>. The memory
  from \<open>p_out\<close> on is the list \<open>p\<close>; a store \<open>p_out[i] = v\<close> is \<open>p[i := v]\<close>, and every
  read is of the list as stored so far. The result is the memory and the returned
  \<open>write_i\<close>. The decoded word \<open>n\<close> stays below \<open>2 ^ 24\<close>, so \<open>uint_fast32_t\<close> does not
  wrap.
\<close>

definition decode_word4 :: "string \<Rightarrow> nat \<Rightarrow> nat" where
  "decode_word4 p read_i =
     (push_bit 18 (base64_index (p ! read_i))
      OR push_bit 12 (base64_index (p ! (read_i + 1)))
      OR push_bit 6 (base64_index (p ! (read_i + 2)))
      OR base64_index (p ! (read_i + 3)))"

definition to_data_char :: "nat \<Rightarrow> char" where
  "to_data_char v = char_of (v AND 0xFF)"

function convert_aligned :: "string \<Rightarrow> nat \<Rightarrow> nat \<Rightarrow> nat \<Rightarrow> string \<times> nat \<times> nat" where
  "convert_aligned p last_aligned write_i read_i =
     (if read_i < last_aligned then
        (let n = decode_word4 p read_i;
             p1 = p[write_i := to_data_char (drop_bit 16 n)];
             p2 = p1[write_i + 1 := to_data_char (drop_bit 8 n)];
             p3 = p2[write_i + 2 := to_data_char n]
         in convert_aligned p3 last_aligned (write_i + 3) (read_i + 4))
      else (p, write_i, read_i))"
  by pat_completeness auto
termination
  by (relation "measure (\<lambda>(p, last_aligned, write_i, read_i). last_aligned - read_i)") auto

declare convert_aligned.simps [simp del]

definition convert_from_base64 :: "string \<Rightarrow> nat \<Rightarrow> string \<times> nat" where
  "convert_from_base64 p sz =
     (let bytes_per_block = 4;
          last_aligned = sz - (sz mod bytes_per_block);
          (p1, write_i1, read_i) = convert_aligned p last_aligned 0 0;
          write_i2 = (if sz \<ge> bytes_per_block
                      then (let w = write_i1 - (if is_base64_padding_character (p1 ! (read_i - 1)) then 1 else 0)
                            in w - (if is_base64_padding_character (p1 ! (read_i - 2)) then 1 else 0))
                      else write_i1);
          bytes_remaining = sz mod bytes_per_block
      in if bytes_remaining = 1 then (p1, write_i2)
         else if bytes_remaining = 2 then
           (let n = push_bit 18 (base64_index (p1 ! read_i))
                    OR push_bit 12 (base64_index (p1 ! (read_i + 1)))
            in (p1[write_i2 := to_data_char (drop_bit 16 n)], write_i2 + 1))
         else if bytes_remaining = 3 then
           (let n = push_bit 18 (base64_index (p1 ! read_i))
                    OR push_bit 12 (base64_index (p1 ! (read_i + 1)))
                    OR push_bit 6 (base64_index (p1 ! (read_i + 2)));
                p2 = p1[write_i2 := to_data_char (drop_bit 16 n)];
                p3 = p2[write_i2 + 1 := to_data_char (drop_bit 8 n)]
            in (p3, write_i2 + 2))
         else (p1, write_i2))"

section \<open>Writer (nepeta\_writer.h, nepeta\_writer\_detail.h)\<close>

datatype indentation_type = Tabs | Spaces

text \<open>
  The fields of \<open>writer_parameters\<close> are \<open>unsigned int\<close>; they are natural numbers here, and
  the one product the writer forms from them wraps at \<open>2 ^ 32\<close>.
\<close>

record writer_parameters =
  indentation :: indentation_type
  indentation_characters :: nat
  limit_for_block_enforcement :: nat
  limit_for_checking_binary :: nat
  base64_per_line :: nat

definition default_writer_parameters :: writer_parameters where
  "default_writer_parameters =
     \<lparr> indentation = Tabs, indentation_characters = 1, limit_for_block_enforcement = 128,
       limit_for_checking_binary = 4294967295, base64_per_line = 60 \<rparr>"

datatype target_data_type = TIdentifier | TString | TBlock | TBlock_base64

definition indentation_char :: "writer_parameters \<Rightarrow> char" where
  "indentation_char param = (if indentation param = Tabs then c_tab else c_space)"

definition write_indentation :: "writer_parameters \<Rightarrow> nat \<Rightarrow> string" where
  "write_indentation param depth =
     replicate ((indentation_characters param * depth) mod 2 ^ 32) (indentation_char param)"

definition write_newline :: string where
  "write_newline = [c_newline]"

definition to_escaped_character :: "char \<Rightarrow> char" where
  "to_escaped_character ch =
     (if ch = c_nullchar then esc_nullchar
      else if ch = c_audible_bell then esc_audible_bell
      else if ch = c_backspace then esc_backspace
      else if ch = c_form_feed then esc_form_feed
      else if ch = c_newline then esc_newline
      else if ch = c_carriage_return then esc_carriage_return
      else if ch = c_tab then esc_tab
      else if ch = c_vertical_tab then esc_vertical_tab
      else ch)"

fun determine_identifier_type :: "string \<Rightarrow> target_data_type" where
  "determine_identifier_type [] = TIdentifier"
| "determine_identifier_type (ch # rest) =
     (if \<not> is_identifier ch then TString else determine_identifier_type rest)"

text \<open>
  The scanning loop of \<open>determine_data_type\<close> over the first \<open>max_check\<close> bytes: \<open>None\<close>
  when it returned \<open>block_base64\<close> from inside the loop, otherwise the final value of
  \<open>is_identifier\<close>.
\<close>

fun scan_data :: "string \<Rightarrow> bool \<Rightarrow> bool option" where
  "scan_data [] is_ident = Some is_ident"
| "scan_data (ch # rest) is_ident =
     (let is_ident' = (if \<not> is_identifier ch then False else is_ident)
      in if is_binary ch then None else scan_data rest is_ident')"

definition determine_data_type :: "writer_parameters \<Rightarrow> string \<Rightarrow> target_data_type" where
  "determine_data_type param data =
     (if data = [] then TString
      else
        (let max_check = min (length data)
               (max (limit_for_checking_binary param) (limit_for_block_enforcement param))
         in case scan_data (take max_check data) True of
              None \<Rightarrow> TBlock_base64
            | Some is_ident \<Rightarrow>
                if length data \<ge> limit_for_block_enforcement param then TBlock
                else if is_ident then TIdentifier
                else TString))"

fun write_string_body :: "string \<Rightarrow> string" where
  "write_string_body [] = []"
| "write_string_body (ch # rest) =
     (if is_escape_character_marker ch then [c_backslash, c_backslash]
      else if is_string_marker ch then [c_backslash, c_double_quote]
      else if is_newline ch then [c_backslash, to_escaped_character ch]
      else [ch]) @ write_string_body rest"

definition write_string :: "string \<Rightarrow> string" where
  "write_string data = [c_double_quote] @ write_string_body data @ [c_double_quote]"

fun write_block_body :: "writer_parameters \<Rightarrow> nat \<Rightarrow> nat \<Rightarrow> string \<Rightarrow> string" where
  "write_block_body param current_depth i [] = []"
| "write_block_body param current_depth i (ch # rest) =
     (if i = 0 \<and> is_whitespace ch then [c_backslash, ch]
      else if is_escape_character_marker ch then [c_backslash, c_backslash]
      else if ch = c_newline then write_newline @ write_indentation param (current_depth + 1)
      else if ch = c_carriage_return then [c_backslash, to_escaped_character ch]
      else [ch]) @ write_block_body param current_depth (i + 1) rest"

definition write_block :: "writer_parameters \<Rightarrow> string \<Rightarrow> nat \<Rightarrow> string" where
  "write_block param data current_depth =
     [c_block_data_open] @ write_newline
     @ (if data \<noteq> [] then
          write_indentation param (current_depth + 1)
          @ write_block_body param current_depth 0 data @ write_newline
        else [])
     @ write_indentation param current_depth @ [c_block_data_close]"

function write_base64_aligned ::
  "writer_parameters \<Rightarrow> nat \<Rightarrow> string \<Rightarrow> nat \<Rightarrow> nat \<Rightarrow> nat \<Rightarrow> string" where
  "write_base64_aligned param current_depth data max_aligned_characters i characters_written =
     (if i < max_aligned_characters then
        (let result = convert_to_base64_fragment 3 (drop i data);
             characters_written1 = characters_written + 4
         in if characters_written1 \<ge> base64_per_line param \<and> i + 1 < max_aligned_characters
            then result @ write_newline @ write_indentation param (current_depth + 1)
                 @ write_base64_aligned param current_depth data max_aligned_characters (i + 3) 0
            else result
                 @ write_base64_aligned param current_depth data max_aligned_characters (i + 3)
                     characters_written1)
      else [])"
  by pat_completeness auto
termination
  by (relation "measure (\<lambda>(param, current_depth, data, m, i, w). m - i)") auto

declare write_base64_aligned.simps [simp del]

definition write_base64 :: "writer_parameters \<Rightarrow> string \<Rightarrow> nat \<Rightarrow> string" where
  "write_base64 param data current_depth =
     [c_block_data_open] @ [c_space] @ base64_codec @ write_newline
     @ (if data \<noteq> [] then
          (let max_aligned_characters = length data - (length data mod 3);
               remainder = length data mod 3
           in write_indentation param (current_depth + 1)
              @ write_base64_aligned param current_depth data max_aligned_characters 0 0
              @ (if remainder \<noteq> 0 then
                   (if remainder = 1
                    then convert_to_base64_fragment 1 (drop (length data - remainder) data)
                    else if remainder = 2
                    then convert_to_base64_fragment 2 (drop (length data - remainder) data)
                    else replicate 4 c_nullchar)
                 else [])
              @ write_newline)
        else [])
     @ write_indentation param current_depth @ [c_block_data_close]"

definition write_data :: "writer_parameters \<Rightarrow> string \<Rightarrow> nat \<Rightarrow> string" where
  "write_data param data current_depth =
     [c_space]
     @ (case determine_data_type param data of
          TIdentifier \<Rightarrow> data
        | TString \<Rightarrow> write_string data
        | TBlock \<Rightarrow> write_block param data current_depth
        | TBlock_base64 \<Rightarrow> write_base64 param data current_depth)"

text \<open>
  \<open>write_node\<close>: \<open>current_depth\<close> is \<open>unsigned int\<close> and grows by one per level of the
  tree; it is a natural number here.
\<close>

fun write_node :: "writer_parameters \<Rightarrow> document \<Rightarrow> nat \<Rightarrow> string" where
  "write_node param (Document ident data children) current_depth =
     (if current_depth > 0 then
        write_indentation param (current_depth - 1)
        @ (if children \<noteq> [] then [c_nested_node_marker] else [])
        @ (if determine_identifier_type ident = TIdentifier then ident else write_string ident)
        @ concat (map (\<lambda>d. write_data param d (current_depth - 1)) data)
        @ write_newline
      else [])
     @ concat (map (\<lambda>child. write_node param child (current_depth + 1)) children)
     @ (if current_depth > 0 \<and> children \<noteq> [] then
          write_indentation param (current_depth - 1) @ [c_nested_node_marker] @ write_newline
        else [])"

definition write_to_string :: "document \<Rightarrow> writer_parameters \<Rightarrow> string" where
  "write_to_string source param = write_node param source 0"

subsection \<open>The scanned prefix, as the specification words it\<close>

text \<open>
  The specification speaks of the first \<open>min(len, max(binary_check_limit, block_threshold))\<close>
  bytes of a value; \<open>scanned_prefix\<close> is that prefix.
\<close>

definition scanned_prefix :: "writer_parameters \<Rightarrow> string \<Rightarrow> string" where
  "scanned_prefix param data =
     take (min (length data)
            (max (limit_for_checking_binary param) (limit_for_block_enforcement param))) data"

section \<open>Properties of the writer's classifier\<close>

lemma scan_data_eq:
  "scan_data xs b = (if list_ex is_binary xs then None else Some (b \<and> list_all is_identifier xs))"
  by (induction xs arbitrary: b) (simp_all add: Let_def)

lemma scanned_prefix_short:
  "length data < limit_for_block_enforcement param \<Longrightarrow> scanned_prefix param data = data"
  by (simp add: scanned_prefix_def)

text \<open>
  Claim C4. For every value and every writer configuration \<open>determine_data_type\<close> gives:
  string for the empty value; otherwise block\_base64 when a byte of the scanned prefix is
  binary; otherwise block when the length reaches the block threshold; otherwise identifier
  when every scanned byte is identifier-safe; otherwise string. A value classified as
  identifier has identifier-safe bytes only.
\<close>

theorem determine_data_type_classifier:
  "determine_data_type param data =
     (if data = [] then TString
      else if list_ex is_binary (scanned_prefix param data) then TBlock_base64
      else if length data \<ge> limit_for_block_enforcement param then TBlock
      else if list_all is_identifier (scanned_prefix param data) then TIdentifier
      else TString)
   \<and> (determine_data_type param data = TIdentifier \<longrightarrow> list_all is_identifier data)"
proof -
  have eq: "determine_data_type param data =
     (if data = [] then TString
      else if list_ex is_binary (scanned_prefix param data) then TBlock_base64
      else if length data \<ge> limit_for_block_enforcement param then TBlock
      else if list_all is_identifier (scanned_prefix param data) then TIdentifier
      else TString)"
    by (simp add: determine_data_type_def scanned_prefix_def scan_data_eq Let_def)
  have "list_all is_identifier data" if "determine_data_type param data = TIdentifier"
  proof -
    from that eq have short: "length data < limit_for_block_enforcement param"
      and "data \<noteq> [] \<and> list_all is_identifier (scanned_prefix param data)"
      by (auto split: if_splits)
    then show ?thesis by (simp add: scanned_prefix_short)
  qed
  with eq show ?thesis by blast
qed

theorem determine_data_type_classifier_witness:
  "determine_data_type default_writer_parameters ''abc'' = TIdentifier
   \<and> determine_data_type default_writer_parameters ''a b'' = TString
   \<and> determine_data_type default_writer_parameters [] = TString
   \<and> determine_data_type default_writer_parameters [CHR ''a'', CHR 0x01] = TBlock_base64
   \<and> determine_data_type (default_writer_parameters \<lparr> limit_for_block_enforcement := 2 \<rparr>) ''a b'' = TBlock
   \<and> list_all is_identifier ''abc''"
  using determine_data_type_classifier [of default_writer_parameters "''abc''"]
    determine_data_type_classifier [of default_writer_parameters "''a b''"]
    determine_data_type_classifier [of default_writer_parameters "[]"]
    determine_data_type_classifier [of default_writer_parameters "[CHR ''a'', CHR 0x01]"]
    determine_data_type_classifier [of "default_writer_parameters \<lparr> limit_for_block_enforcement := 2 \<rparr>" "''a b''"]
  by (simp add: scanned_prefix_def default_writer_parameters_def classifier_defs char_consts)

section \<open>The base64 decoder on a single aligned block\<close>

lemmas base64_eval =
  convert_aligned.simps convert_from_base64_def decode_word4_def base64_index_def base64_index_table_def
  to_data_char_def is_base64_padding_character_def base64_padding_character_def Let_def
  char_of_eq_iff

text \<open>
  Claim C3 says that a buffer of four bytes decodes to three bytes less the number of
  trailing \<open>=\<close>. On the four bytes \<open>AQ==\<close> (the encoding of the single byte 0x01) the
  decoder returns 2, not 1: the loop stores the three decoded bytes at \<open>p[0..2]\<close> before
  the padding test reads \<open>p[read_i - 2] = p[2]\<close>, which by then holds the decoded byte
  0x00 and no longer the \<open>=\<close> of the input.
\<close>

theorem convert_from_base64_single_block_padding:
  "convert_from_base64 ''AQ=='' 4 = ([CHR 0x01, CHR 0x00, CHR 0x00, CHR ''=''], 2)"
  by (simp add: base64_eval)

text \<open>
  The same read makes a block without padding lose a byte when the third decoded byte is
  0x3D: \<open>AAA9\<close> decodes to the bytes 0x00 0x00 0x3D, and the decoder returns 2.
\<close>

lemma convert_from_base64_single_block_no_padding:
  "convert_from_base64 ''AAA9'' 4 = ([CHR 0x00, CHR 0x00, CHR ''='', CHR ''9''], 2)"
  by (simp add: base64_eval)

text \<open>With two aligned blocks the padding bytes are still those of the input.\<close>

lemma convert_from_base64_two_blocks:
  "convert_from_base64 ''aGVsbG8='' 8 = (''hello'' @ [CHR 0x00, CHR ''8'', CHR ''=''], 5)"
  by (simp add: base64_eval)

section \<open>Parser specializations (nepeta\_parser\_specialization.h)\<close>

datatype parser_error =
  illegal_character | node_not_closed | comment_not_closed | string_not_closed
  | block_not_closed | too_may_node_closing_markers | bad_codec | recursion_limit_reached
  | require_newline | invalid_escape | bad_block_close

definition default_recursion_limit :: nat where
  "default_recursion_limit = 2000"

definition default_maximum_error_limit :: nat where
  "default_maximum_error_limit = 10"

text \<open>
  The parser is a template over its specialization, \<open>parser_document\<close> (values are owned
  strings) or \<open>parser_document_view\<close> (values are slices of the source buffer, which the
  parser writes into). The model has one parser; its state says which of the two structs
  it was instantiated with, and a value is either an owned string or a slice
  \<open>(offset, size)\<close> of \<open>source\<close>.

  \<open>error_function_calls\<close> lists the calls the parser has made to the error sink, oldest
  first, each with its arguments \<open>(type, ch, line, column)\<close>.
\<close>

datatype specialization = Parser_document | Parser_document_view

datatype data_type = Owned string | View nat nat

record parser =
  specialization :: specialization
  source :: string
  error_function_calls :: "(parser_error \<times> char \<times> nat \<times> nat) list"
  recursion_limit :: nat
  error_limit :: nat
  buffer_position :: nat
  current_character :: char

text \<open>
  A read of the source at an index. In range it is the byte stored there. At
  \<open>source.size()\<close> a \<open>std::string\<close> holds its terminating NUL; reads further out are
  outside the language's guarantees and give NUL here as well.
\<close>

definition char_at :: "string \<Rightarrow> nat \<Rightarrow> char" where
  "char_at buf i = (if i < length buf then buf ! i else c_nullchar)"

definition line_column_from_buffer_position :: "string \<Rightarrow> nat \<Rightarrow> nat \<times> nat" where
  "line_column_from_buffer_position buf bufpos =
     foldl (\<lambda>(line, column) i.
              if char_at buf i = c_newline then (line + 1, 1) else (line, column + 1))
       (1, 1) [0..<bufpos]"

definition make_data :: "parser \<Rightarrow> data_type" where
  "make_data s =
     (case specialization s of
        Parser_document \<Rightarrow> Owned []
      | Parser_document_view \<Rightarrow> View (buffer_position s) 0)"

text \<open>
  \<open>std::copy(src, src + n, source + offset)\<close> inside the buffer: the bytes at
  \<open>[from, from + n)\<close> as they were before the copy arrive at \<open>[to, to + n)\<close>. The parser
  only copies towards the front (\<open>to \<le> from\<close>), where the forward copy reads no byte it
  has written.
\<close>

definition copy_within :: "string \<Rightarrow> nat \<Rightarrow> nat \<Rightarrow> nat \<Rightarrow> string" where
  "copy_within buf from n to =
     map (\<lambda>i. if to \<le> i \<and> i < to + n then char_at buf (from + (i - to)) else buf ! i)
       [0..<length buf]"

definition add_character :: "data_type \<Rightarrow> char \<Rightarrow> parser \<Rightarrow> data_type \<times> parser" where
  "add_character dst ch s =
     (case dst of
        Owned str \<Rightarrow> (Owned (str @ [ch]), s)
      | View start n \<Rightarrow> (View start (n + 1), s\<lparr>source := (source s)[start + n := ch]\<rparr>))"

definition copy_string :: "data_type \<Rightarrow> nat \<times> nat \<Rightarrow> parser \<Rightarrow> data_type \<times> parser" where
  "copy_string dst src s =
     (case src of (src_start, src_size) \<Rightarrow>
        (case dst of
           Owned str \<Rightarrow> (Owned (str @ take src_size (drop src_start (source s))), s)
         | View start n \<Rightarrow>
             (View start (n + src_size),
              if start \<noteq> src_start
              then s\<lparr>source := copy_within (source s) src_start src_size (start + n)\<rparr>
              else s)))"

definition resize_string :: "data_type \<Rightarrow> nat \<Rightarrow> data_type" where
  "resize_string dst n_bytes =
     (case dst of
        Owned str \<Rightarrow> Owned (take n_bytes str @ replicate (n_bytes - length str) c_nullchar)
      | View start n \<Rightarrow> View start n_bytes)"

definition data_size :: "data_type \<Rightarrow> nat" where
  "data_size dst = (case dst of Owned str \<Rightarrow> length str | View start n \<Rightarrow> n)"

definition spec_next_character :: "parser \<Rightarrow> parser" where
  "spec_next_character s = s\<lparr>buffer_position := buffer_position s + 1\<rparr>"

definition spec_current_character :: "parser \<Rightarrow> char" where
  "spec_current_character s = char_at (source s) (buffer_position s)"

definition eof :: "parser \<Rightarrow> bool" where
  "eof s \<longleftrightarrow> buffer_position s \<ge> length (source s)"

text \<open>
  \<open>next_eof\<close> differs between the two structs: \<open>parser_document\<close> compares with
  \<open>source.size() - 1\<close>, which for an empty source wraps to \<open>2 ^ 64 - 1\<close> in \<open>size_t\<close>.
\<close>

definition next_eof :: "parser \<Rightarrow> bool" where
  "next_eof s \<longleftrightarrow>
     (case specialization s of
        Parser_document \<Rightarrow>
          buffer_position s \<ge> (if source s = [] then 2 ^ 64 - 1 else length (source s) - 1)
      | Parser_document_view \<Rightarrow> buffer_position s + 1 \<ge> length (source s))"

definition peek_next_character :: "parser \<Rightarrow> char" where
  "peek_next_character s =
     (if next_eof s then c_nullchar else char_at (source s) (buffer_position s + 1))"

definition error :: "parser_error \<Rightarrow> char \<Rightarrow> nat \<Rightarrow> parser \<Rightarrow> parser" where
  "error type ch bufpos s =
     (if error_limit s = 0 then s
      else
        (case line_column_from_buffer_position (source s) bufpos of (line, column) \<Rightarrow>
           s\<lparr>error_function_calls := error_function_calls s @ [(type, ch, line, column)],
             error_limit := error_limit s - 1\<rparr>))"

section \<open>Parser (nepeta\_parser\_detail.h)\<close>

datatype parsing_position = Eof | Valid

datatype block_codec_type = Codec_text | Codec_base64

datatype comment_type = Passed_to_next_line | Stayed_on_same_line | Not_a_comment

datatype parser_data_type = PIdentifier | PString | PBlock | Not_a_data_type

definition nepeta_parser :: "specialization \<Rightarrow> string \<Rightarrow> parser" where
  "nepeta_parser spec src =
     \<lparr> specialization = spec, source = src, error_function_calls = [],
       recursion_limit = default_recursion_limit, error_limit = default_maximum_error_limit,
       buffer_position = 0,
       current_character = (if src = [] then c_nullchar else char_at src 0) \<rparr>"

definition whitespace_and_newlines :: "parser \<Rightarrow> char \<Rightarrow> bool" where
  "whitespace_and_newlines s cur \<longleftrightarrow> is_whitespace cur \<or> is_newline cur"

definition whitespace :: "parser \<Rightarrow> char \<Rightarrow> bool" where
  "whitespace s cur \<longleftrightarrow> is_whitespace cur"

definition identifier_pred :: "parser \<Rightarrow> char \<Rightarrow> bool" where
  "identifier_pred s cur \<longleftrightarrow> is_identifier cur"

definition block_text :: "parser \<Rightarrow> char \<Rightarrow> bool" where
  "block_text s cur \<longleftrightarrow> \<not> is_newline cur \<and> \<not> is_escape_character_marker cur"

definition until_newline :: "parser \<Rightarrow> char \<Rightarrow> bool" where
  "until_newline s cur \<longleftrightarrow> \<not> is_newline cur"

definition string_text :: "parser \<Rightarrow> char \<Rightarrow> bool" where
  "string_text s cur \<longleftrightarrow>
     \<not> (is_string_marker cur \<or> is_newline cur \<or> is_escape_character_marker cur)"

definition next_character :: "parser \<Rightarrow> parser" where
  "next_character s =
     (if current_character s = c_carriage_return \<and> peek_next_character s = c_newline
      then spec_next_character (spec_next_character s)
      else spec_next_character s)"

definition update_current_character_unsafe :: "parser \<Rightarrow> parser" where
  "update_current_character_unsafe s = s\<lparr>current_character := spec_current_character s\<rparr>"

definition update_current_character :: "parser \<Rightarrow> parser" where
  "update_current_character s =
     s\<lparr>current_character := (if eof s then c_nullchar else spec_current_character s)\<rparr>"

text \<open>
  \<open>skip\<close> takes the predicate as a function object. One caller passes a closure that reads
  the parser's position, so a predicate sees the parser as well as the byte.
\<close>

function skip :: "(parser \<Rightarrow> char \<Rightarrow> bool) \<Rightarrow> parser \<Rightarrow> parsing_position \<times> parser" where
  "skip matching_predicate s =
     (if matching_predicate s (current_character s) then
        (let s1 = next_character s
         in if eof s1 then (Eof, s1)
            else skip matching_predicate (update_current_character_unsafe s1))
      else (if eof s then Eof else Valid, s))"
  by pat_completeness auto
termination
  by (relation "measure (\<lambda>(p, s). length (source s) - buffer_position s)")
     (auto simp: next_character_def spec_next_character_def update_current_character_unsafe_def
        eof_def)

declare skip.simps [simp del]

definition read :: "(parser \<Rightarrow> char \<Rightarrow> bool) \<Rightarrow> parser \<Rightarrow> nat \<times> parser" where
  "read matching_predicate s =
     (let start = buffer_position s;
          s1 = snd (skip matching_predicate s)
      in (buffer_position s1 - start, s1))"

definition source_view_before_current :: "nat \<Rightarrow> parser \<Rightarrow> nat \<times> nat" where
  "source_view_before_current bytes s = (buffer_position s - bytes, bytes)"

definition append_buffer_string :: "data_type \<Rightarrow> nat \<Rightarrow> parser \<Rightarrow> data_type \<times> parser" where
  "append_buffer_string data n_bytes s =
     copy_string data (source_view_before_current n_bytes s) s"

definition append_buffer_character :: "data_type \<Rightarrow> char \<Rightarrow> parser \<Rightarrow> data_type \<times> parser" where
  "append_buffer_character data ch s = add_character data ch s"

text \<open>
  \<open>base64_convert\<close> decodes in the storage of the value: the string's own buffer, or the
  source buffer from the slice's offset on.
\<close>

definition base64_convert :: "data_type \<Rightarrow> parser \<Rightarrow> data_type \<times> parser" where
  "base64_convert data s =
     (case data of
        Owned str \<Rightarrow>
          (case convert_from_base64 str (length str) of (p, new_size) \<Rightarrow>
             (resize_string (Owned p) new_size, s))
      | View start n \<Rightarrow>
          (case convert_from_base64 (drop start (source s)) n of (p, new_size) \<Rightarrow>
             (resize_string (View start n) new_size,
              s\<lparr>source := take start (source s) @ p\<rparr>)))"

definition detect_data_type :: "parser \<Rightarrow> parser_data_type" where
  "detect_data_type s =
     (if is_identifier (current_character s) then PIdentifier
      else if is_string_marker (current_character s) then PString
      else if is_block_start_marker (current_character s) then PBlock
      else Not_a_data_type)"

subsection \<open>What every parsing step preserves\<close>

text \<open>
  \<open>advances s s'\<close>: from \<open>s\<close> to \<open>s'\<close> the source keeps its length, the position does
  not go back, the specialization and the recursion limit stay, and every call to the error
  sink has used up one unit of the error limit.
\<close>

definition advances :: "parser \<Rightarrow> parser \<Rightarrow> bool" where
  "advances s s' \<longleftrightarrow>
     length (source s') = length (source s)
     \<and> buffer_position s \<le> buffer_position s'
     \<and> specialization s' = specialization s
     \<and> recursion_limit s' = recursion_limit s
     \<and> length (error_function_calls s') + error_limit s'
         = length (error_function_calls s) + error_limit s"

lemma advances_refl [simp]: "advances s s"
  by (simp add: advances_def)

lemma advances_trans [trans]: "advances s s1 \<Longrightarrow> advances s1 s2 \<Longrightarrow> advances s s2"
  by (simp add: advances_def)

lemma advances_position: "advances s s' \<Longrightarrow> buffer_position s \<le> buffer_position s'"
  by (simp add: advances_def)

lemma advances_length: "advances s s' \<Longrightarrow> length (source s') = length (source s)"
  by (simp add: advances_def)

lemma advances_measure:
  "advances s1 s2 \<Longrightarrow> buffer_position s < buffer_position s1 \<Longrightarrow> \<not> eof s
   \<Longrightarrow> length (source s1) = length (source s)
   \<Longrightarrow> length (source s2) - buffer_position s2 < length (source s) - buffer_position s"
  by (auto simp: advances_def eof_def)

lemma next_character_position:
  "buffer_position s < buffer_position (next_character s)"
  by (simp add: next_character_def spec_next_character_def)

lemma next_character_fields [simp]:
  "source (next_character s) = source s"
  "specialization (next_character s) = specialization s"
  "recursion_limit (next_character s) = recursion_limit s"
  "error_limit (next_character s) = error_limit s"
  "error_function_calls (next_character s) = error_function_calls s"
  "current_character (next_character s) = current_character s"
  by (simp_all add: next_character_def spec_next_character_def)

lemma update_current_character_fields [simp]:
  "source (update_current_character s) = source s"
  "specialization (update_current_character s) = specialization s"
  "recursion_limit (update_current_character s) = recursion_limit s"
  "error_limit (update_current_character s) = error_limit s"
  "error_function_calls (update_current_character s) = error_function_calls s"
  "buffer_position (update_current_character s) = buffer_position s"
  "source (update_current_character_unsafe s) = source s"
  "specialization (update_current_character_unsafe s) = specialization s"
  "recursion_limit (update_current_character_unsafe s) = recursion_limit s"
  "error_limit (update_current_character_unsafe s) = error_limit s"
  "error_function_calls (update_current_character_unsafe s) = error_function_calls s"
  "buffer_position (update_current_character_unsafe s) = buffer_position s"
  by (simp_all add: update_current_character_def update_current_character_unsafe_def)

lemma eof_update [simp]:
  "eof (update_current_character s) = eof s"
  "eof (update_current_character_unsafe s) = eof s"
  by (simp_all add: eof_def)

lemma error_fields [simp]:
  "source (error t ch p s) = source s"
  "specialization (error t ch p s) = specialization s"
  "recursion_limit (error t ch p s) = recursion_limit s"
  "buffer_position (error t ch p s) = buffer_position s"
  "current_character (error t ch p s) = current_character s"
  by (simp_all add: error_def split: prod.split)

lemma eof_error [simp]: "eof (error t ch p s) = eof s"
  by (simp add: eof_def)

lemma advances_next_character [simp]: "advances s (next_character s)"
  using next_character_position [of s] by (simp add: advances_def)

lemma advances_update [simp]:
  "advances s (update_current_character s)"
  "advances s (update_current_character_unsafe s)"
  by (simp_all add: advances_def)

lemma advances_error [simp]: "advances s (error t ch p s)"
  by (simp add: advances_def) (simp add: error_def split: prod.split)

lemma advances_add_character [simp]: "advances s (snd (add_character dst ch s))"
  by (simp add: advances_def add_character_def split: data_type.split)

lemma add_character_fields [simp]:
  "buffer_position (snd (add_character dst ch s)) = buffer_position s"
  "current_character (snd (add_character dst ch s)) = current_character s"
  "length (source (snd (add_character dst ch s))) = length (source s)"
  by (simp_all add: add_character_def split: data_type.split)

lemma length_copy_within [simp]: "length (copy_within buf from n to) = length buf"
  by (simp add: copy_within_def)

lemma advances_copy_string [simp]: "advances s (snd (copy_string dst src s))"
  by (simp add: advances_def copy_string_def split: data_type.split prod.split)

lemma copy_string_fields [simp]:
  "buffer_position (snd (copy_string dst src s)) = buffer_position s"
  "current_character (snd (copy_string dst src s)) = current_character s"
  "length (source (snd (copy_string dst src s))) = length (source s)"
  by (simp_all add: copy_string_def split: data_type.split prod.split)

lemma append_buffer_fields [simp]:
  "buffer_position (snd (append_buffer_string data n s)) = buffer_position s"
  "current_character (snd (append_buffer_string data n s)) = current_character s"
  "length (source (snd (append_buffer_string data n s))) = length (source s)"
  "buffer_position (snd (append_buffer_character data ch s)) = buffer_position s"
  "current_character (snd (append_buffer_character data ch s)) = current_character s"
  "length (source (snd (append_buffer_character data ch s))) = length (source s)"
  by (simp_all add: append_buffer_string_def append_buffer_character_def)

lemma eof_append_buffer [simp]:
  "eof (snd (append_buffer_string data n s)) = eof s"
  "eof (snd (append_buffer_character data ch s)) = eof s"
  by (simp_all add: eof_def)

lemma advances_append_buffer [simp]:
  "advances s (snd (append_buffer_string data n s))"
  "advances s (snd (append_buffer_character data ch s))"
  by (simp_all add: append_buffer_string_def append_buffer_character_def)

lemma length_convert_aligned [simp]:
  "length (fst (convert_aligned p last_aligned write_i read_i)) = length p"
proof (induction p last_aligned write_i read_i rule: convert_aligned.induct)
  case (1 p last_aligned write_i read_i)
  show ?case
  proof (cases "read_i < last_aligned")
    case True
    with "1.IH" [OF True refl refl refl refl] show ?thesis
      by (simp add: convert_aligned.simps [of p last_aligned write_i read_i] Let_def)
  next
    case False
    then show ?thesis by (simp add: convert_aligned.simps [of p last_aligned write_i read_i])
  qed
qed

lemma length_convert_from_base64 [simp]:
  "length (fst (convert_from_base64 p n)) = length p"
proof -
  obtain p1 w r where c: "convert_aligned p (n - n mod 4) 0 0 = (p1, w, r)"
    by (cases "convert_aligned p (n - n mod 4) 0 0") auto
  from length_convert_aligned [of p "n - n mod 4" 0 0] c have "length p1 = length p"
    by simp
  with c show ?thesis
    by (simp add: convert_from_base64_def Let_def)
qed

lemma advances_base64_convert [simp]: "advances s (snd (base64_convert data s))"
proof (cases data)
  case (Owned str)
  then show ?thesis by (simp add: base64_convert_def split: prod.split)
next
  case (View start n)
  obtain p w where c: "convert_from_base64 (drop start (source s)) n = (p, w)"
    by (cases "convert_from_base64 (drop start (source s)) n") auto
  from length_convert_from_base64 [of "drop start (source s)" n] c
  have "length p = length (source s) - start" by simp
  with View c show ?thesis
    by (simp add: base64_convert_def advances_def)
qed

lemma base64_convert_fields [simp]:
  "buffer_position (snd (base64_convert data s)) = buffer_position s"
  "current_character (snd (base64_convert data s)) = current_character s"
  by (simp_all add: base64_convert_def split: data_type.split prod.split)

lemma advances_skip [simp]: "advances s (snd (skip p s))"
proof (induction p s rule: skip.induct)
  case (1 p s)
  show ?case
  proof (cases "p s (current_character s) \<and> \<not> eof (next_character s)")
    case True
    have "advances s (update_current_character_unsafe (next_character s))"
      by (rule advances_trans [OF advances_next_character]) simp
    with True "1.IH" [OF _ refl] show ?thesis
      by (auto simp: skip.simps [of p s] Let_def intro: advances_trans)
  next
    case False
    then show ?thesis by (auto simp: skip.simps [of p s] Let_def)
  qed
qed

text \<open>
  After \<open>skip\<close> the parser is at the end of the source or at a byte the predicate rejects;
  \<open>Valid\<close> is returned exactly when it is not at the end.
\<close>

lemma skip_result:
  "fst (skip p s) = (if eof (snd (skip p s)) then Eof else Valid)"
proof (induction p s rule: skip.induct)
  case (1 p s)
  show ?case
  proof (cases "p s (current_character s) \<and> \<not> eof (next_character s)")
    case True
    with "1.IH" [OF _ refl] show ?thesis
      by (simp add: skip.simps [of p s] Let_def)
  next
    case False
    then show ?thesis by (auto simp: skip.simps [of p s] Let_def)
  qed
qed

lemma skip_Valid_not_eof: "skip p s = (Valid, s') \<Longrightarrow> \<not> eof s'"
  using skip_result [of p s] by (auto split: if_splits)

lemma skip_stops:
  "eof (snd (skip p s))
   \<or> \<not> p (snd (skip p s)) (current_character (snd (skip p s)))"
proof (induction p s rule: skip.induct)
  case (1 p s)
  show ?case
  proof (cases "p s (current_character s) \<and> \<not> eof (next_character s)")
    case True
    with "1.IH" [OF _ refl] show ?thesis
      by (simp add: skip.simps [of p s] Let_def)
  next
    case False
    then show ?thesis by (auto simp: skip.simps [of p s] Let_def)
  qed
qed

lemma skip_progress:
  "p s (current_character s) \<Longrightarrow> buffer_position s < buffer_position (snd (skip p s))"
proof -
  assume a: "p s (current_character s)"
  have "advances (update_current_character_unsafe (next_character s))
          (snd (skip p (update_current_character_unsafe (next_character s))))"
    by simp
  then have "buffer_position (next_character s)
      \<le> buffer_position (snd (skip p (update_current_character_unsafe (next_character s))))"
    by (simp add: advances_def)
  with a next_character_position [of s] show ?thesis
    by (simp add: skip.simps [of p s] Let_def)
qed

lemma advances_read [simp]: "advances s (snd (read p s))"
  by (simp add: read_def Let_def)

lemma read_progress:
  "p s (current_character s) \<Longrightarrow> buffer_position s < buffer_position (snd (read p s))"
  by (simp add: read_def Let_def skip_progress)

lemma read_stops:
  "eof (snd (read p s))
   \<or> \<not> p (snd (read p s)) (current_character (snd (read p s)))"
  using skip_stops [of p s] by (simp add: read_def Let_def)

subsection \<open>Escapes, comments and the rest of a line\<close>

text \<open>The \<open>switch\<close> of \<open>read_escape_character\<close>: the byte to add, if the escape is valid.\<close>

definition escaped_character :: "char \<Rightarrow> char option" where
  "escaped_character ch =
     (if ch = esc_nullchar then Some c_nullchar
      else if ch = esc_audible_bell then Some c_audible_bell
      else if ch = esc_backspace then Some c_backspace
      else if ch = esc_form_feed then Some c_form_feed
      else if ch = esc_newline then Some c_newline
      else if ch = esc_carriage_return then Some c_carriage_return
      else if ch = esc_tab then Some c_tab
      else if ch = esc_vertical_tab then Some c_vertical_tab
      else if ch = c_single_quote \<or> ch = c_double_quote \<or> ch = c_backslash
              \<or> ch = c_space \<or> ch = c_tab \<or> ch = c_block_data_open
              \<or> ch = c_block_data_close then Some ch
      else None)"

definition read_escape_character :: "data_type \<Rightarrow> parser \<Rightarrow> data_type \<times> parser" where
  "read_escape_character data s =
     (let s1 = update_current_character (next_character s)
      in case escaped_character (current_character s1) of
           None \<Rightarrow>
             (data, error invalid_escape (current_character s1) (buffer_position s1) s1)
         | Some to_add \<Rightarrow>
             (case append_buffer_character data to_add s1 of (data1, s2) \<Rightarrow>
                (data1, update_current_character (next_character s2))))"

definition skip_whitespace_until_newline :: "parser \<Rightarrow> parser" where
  "skip_whitespace_until_newline s =
     (let s1 = snd (skip whitespace s);
          s2 = (if \<not> is_newline (current_character s1)
                then snd (skip until_newline
                       (error require_newline (current_character s1) (buffer_position s1) s1))
                else s1)
      in if \<not> eof s2 then update_current_character (next_character s2) else s2)"

function skip_comment_multiline :: "nat \<Rightarrow> comment_type \<Rightarrow> parser \<Rightarrow> comment_type \<times> parser" where
  "skip_comment_multiline start_position type s =
     (if \<not> eof s then
        (let s1 = update_current_character_unsafe s
         in if is_comment_multiline_marker (current_character s1)
               \<and> is_comment_marker (peek_next_character s1)
            then (type, update_current_character (next_character (next_character s1)))
            else skip_comment_multiline start_position
                   (if is_newline (current_character s1) then Passed_to_next_line else type)
                   (next_character s1))
      else (type, error comment_not_closed c_nullchar start_position s))"
  by pat_completeness auto
termination
  by (relation "measure (\<lambda>(start_position, type, s). length (source s) - buffer_position s)")
     (auto simp: next_character_def spec_next_character_def update_current_character_unsafe_def
        eof_def)

declare skip_comment_multiline.simps [simp del]

definition skip_comment :: "parser \<Rightarrow> comment_type \<times> parser" where
  "skip_comment s =
     (let start_position = buffer_position s;
          next_ch = peek_next_character s
      in if is_comment_multiline_marker next_ch then
           skip_comment_multiline start_position Stayed_on_same_line
             (next_character (next_character s))
         else if is_comment_marker next_ch then
           (Passed_to_next_line, snd (skip until_newline s))
         else (Not_a_comment, s))"

lemma advances_read_escape_character_aux:
  "advances (update_current_character (next_character s)) (snd (read_escape_character data s))"
proof -
  let ?s1 = "update_current_character (next_character s)"
  show ?thesis
  proof (cases "escaped_character (current_character ?s1)")
    case None
    then show ?thesis by (simp add: read_escape_character_def Let_def)
  next
    case (Some to_add)
    obtain data1 s2 where a: "append_buffer_character data to_add ?s1 = (data1, s2)"
      by (cases "append_buffer_character data to_add ?s1") auto
    from advances_append_buffer(2) [of ?s1 data to_add] a have "advances ?s1 s2" by simp
    moreover have "advances s2 (next_character s2)" by simp
    moreover have "advances (next_character s2) (update_current_character (next_character s2))"
      by simp
    ultimately have "advances ?s1 (update_current_character (next_character s2))"
      by (blast intro: advances_trans)
    with Some a show ?thesis by (simp add: read_escape_character_def Let_def)
  qed
qed

lemma advances_read_escape_character [simp]:
  "advances s (snd (read_escape_character data s))"
proof -
  have "advances s (next_character s)" by simp
  moreover have "advances (next_character s) (update_current_character (next_character s))"
    by simp
  ultimately show ?thesis
    using advances_read_escape_character_aux [of s data] by (blast intro: advances_trans)
qed

lemma read_escape_character_progress:
  "buffer_position s < buffer_position (snd (read_escape_character data s))"
proof -
  from advances_read_escape_character_aux [of s data]
  have "buffer_position (next_character s) \<le> buffer_position (snd (read_escape_character data s))"
    by (simp add: advances_def)
  with next_character_position [of s] show ?thesis by simp
qed

lemma advances_skip_whitespace_until_newline [simp]:
  "advances s (skip_whitespace_until_newline s)"
proof -
  let ?s1 = "snd (skip whitespace s)"
  let ?s2 = "if \<not> is_newline (current_character ?s1)
                then snd (skip until_newline
                       (error require_newline (current_character ?s1) (buffer_position ?s1) ?s1))
                else ?s1"
  have 1: "advances s ?s1" by simp
  have 2: "advances ?s1 ?s2"
    using advances_trans [OF advances_error advances_skip] by simp
  have 3: "advances ?s2 (if \<not> eof ?s2 then update_current_character (next_character ?s2) else ?s2)"
    using advances_trans [OF advances_next_character advances_update(1)] by simp
  from advances_trans [OF 1 advances_trans [OF 2 3]] show ?thesis
    by (simp add: skip_whitespace_until_newline_def Let_def)
qed

lemma advances_skip_comment_multiline [simp]:
  "advances s (snd (skip_comment_multiline start type s))"
proof (induction start type s rule: skip_comment_multiline.induct)
  case (1 start type s)
  show ?case
  proof (cases "eof s")
    case True
    then show ?thesis by (simp add: skip_comment_multiline.simps [of start type s])
  next
    case False
    let ?s1 = "update_current_character_unsafe s"
    show ?thesis
    proof (cases "is_comment_multiline_marker (current_character ?s1)
               \<and> is_comment_marker (peek_next_character ?s1)")
      case True
      have "advances s (update_current_character (next_character (next_character ?s1)))"
        by (rule advances_trans [OF advances_update(2)],
            rule advances_trans [OF advances_next_character],
            rule advances_trans [OF advances_next_character]) simp
      with True False show ?thesis
        by (simp add: skip_comment_multiline.simps [of start type s] Let_def)
    next
      case no: False
      have "advances s (next_character ?s1)"
        by (rule advances_trans [OF advances_update(2)]) simp
      from advances_trans [OF this "1.IH" [OF False refl no]] no False show ?thesis
        by (auto simp: skip_comment_multiline.simps [of start type s] Let_def)
    qed
  qed
qed

lemma advances_skip_comment [simp]: "advances s (snd (skip_comment s))"
proof -
  have "advances s (next_character (next_character s))"
    by (rule advances_trans [OF advances_next_character]) simp
  then have "advances s (snd (skip_comment_multiline start type (next_character (next_character s))))"
    for start type
    by (rule advances_trans) simp
  then show ?thesis by (simp add: skip_comment_def Let_def)
qed

lemma comment_marker_not_newline: "is_comment_marker ch \<Longrightarrow> \<not> is_newline ch"
  by (simp add: is_comment_marker_def is_newline_def char_consts)

lemma skip_comment_progress:
  assumes "is_comment_marker (current_character s)" "fst (skip_comment s) \<noteq> Not_a_comment"
  shows "buffer_position s < buffer_position (snd (skip_comment s))"
proof (cases "is_comment_multiline_marker (peek_next_character s)")
  case True
  have "advances (next_character s)
          (snd (skip_comment_multiline (buffer_position s) Stayed_on_same_line
             (next_character (next_character s))))"
    by (rule advances_trans [OF advances_next_character]) simp
  then have "buffer_position (next_character s)
      \<le> buffer_position (snd (skip_comment_multiline (buffer_position s) Stayed_on_same_line
             (next_character (next_character s))))"
    by (rule advances_position)
  with True next_character_position [of s] show ?thesis
    by (simp add: skip_comment_def Let_def)
next
  case False
  with assms(2) have "is_comment_marker (peek_next_character s)"
    by (simp add: skip_comment_def Let_def split: if_splits)
  moreover have "until_newline s (current_character s)"
    using assms(1) by (simp add: until_newline_def comment_marker_not_newline)
  ultimately show ?thesis
    using False skip_progress [of until_newline s] by (simp add: skip_comment_def Let_def)
qed

subsection \<open>Data contexts\<close>

definition parse_data_identifier_context :: "parser \<Rightarrow> data_type \<times> parser" where
  "parse_data_identifier_context s =
     (let data = make_data s
      in case read identifier_pred s of (n, s1) \<Rightarrow> append_buffer_string data n s1)"

lemma read_advances_eq: "(n, s') = read p s \<Longrightarrow> advances s s'"
  by (metis advances_read snd_conv)

lemma append_buffer_string_advances_eq:
  "(d, s') = append_buffer_string data n s \<Longrightarrow> advances s s'"
  by (metis advances_append_buffer(1) snd_conv)

lemma append_buffer_character_advances_eq:
  "(d, s') = append_buffer_character data ch s \<Longrightarrow> advances s s'"
  by (metis advances_append_buffer(2) snd_conv)

lemma read_escape_character_progress_eq:
  "(d, s') = read_escape_character data s
   \<Longrightarrow> buffer_position s < buffer_position s' \<and> length (source s') = length (source s)"
  by (metis advances_read_escape_character advances_length read_escape_character_progress snd_conv)

lemma measure_decreases:
  "\<not> eof s \<Longrightarrow> advances s s1 \<Longrightarrow> buffer_position s1 < buffer_position s2
   \<Longrightarrow> length (source s2) = length (source s1)
   \<Longrightarrow> length (source s2) - buffer_position s2 < length (source s) - buffer_position s"
  by (auto simp: advances_def eof_def)

text \<open>The \<open>while\<close> loop of \<open>parse_data_string_context\<close>.\<close>

function parse_data_string_loop :: "nat \<Rightarrow> data_type \<Rightarrow> parser \<Rightarrow> data_type \<times> parser" where
  "parse_data_string_loop start_position data s =
     (if \<not> eof s then
        (let s1 = update_current_character_unsafe s
         in case read string_text s1 of (bytes, s2) \<Rightarrow>
            (case append_buffer_string data bytes s2 of (data1, s3) \<Rightarrow>
               if is_string_marker (current_character s3) then
                 (data1, update_current_character (next_character s3))
               else if is_escape_character_marker (current_character s3) then
                 (case read_escape_character data1 s3 of (data2, s4) \<Rightarrow>
                    parse_data_string_loop start_position data2 s4)
               else (data1, error string_not_closed c_nullchar start_position s3)))
      else (data, error string_not_closed c_nullchar start_position s))"
  by pat_completeness auto
termination
proof (relation "measure (\<lambda>(start_position, data, s). length (source s) - buffer_position s)",
    goal_cases)
  case 1
  show ?case by simp
next
  case (2 start_position data s s1 bytes s2 data1 s3 data2 s4)
  have "advances s s1" using 2 by simp
  also have "advances s1 s2" using 2 by (auto dest: read_advances_eq)
  also have "advances s2 s3" using 2 by (auto dest: append_buffer_string_advances_eq)
  finally have "advances s s3" .
  moreover from 2 have "buffer_position s3 < buffer_position s4 \<and> length (source s4) = length (source s3)"
    by (auto dest: read_escape_character_progress_eq)
  ultimately show ?case using 2(1) by (auto simp: advances_def eof_def)
qed

declare parse_data_string_loop.simps [simp del]

definition parse_data_string_context :: "parser \<Rightarrow> data_type \<times> parser" where
  "parse_data_string_context s =
     (let start_position = buffer_position s;
          s1 = next_character s;
          data = make_data s1
      in parse_data_string_loop start_position data s1)"

lemma advances_parse_data_string_loop [simp]:
  "advances s (snd (parse_data_string_loop start_position data s))"
proof (induction start_position data s rule: parse_data_string_loop.induct)
  case (1 start_position data s)
  show ?case
  proof (cases "eof s")
    case True
    then show ?thesis by (simp add: parse_data_string_loop.simps [of start_position data s])
  next
    case False
    let ?s1 = "update_current_character_unsafe s"
    obtain bytes s2 where r: "read string_text ?s1 = (bytes, s2)"
      by (cases "read string_text ?s1") auto
    obtain data1 s3 where a: "append_buffer_string data bytes s2 = (data1, s3)"
      by (cases "append_buffer_string data bytes s2") auto
    have "advances s ?s1" by simp
    also have "advances ?s1 s2" using r [symmetric] by (rule read_advances_eq)
    also have "advances s2 s3" using a [symmetric] by (rule append_buffer_string_advances_eq)
    finally have s3: "advances s s3" .
    consider (close) "is_string_marker (current_character s3)"
      | (esc) "\<not> is_string_marker (current_character s3)"
          "is_escape_character_marker (current_character s3)"
      | (nl) "\<not> is_string_marker (current_character s3)"
          "\<not> is_escape_character_marker (current_character s3)"
      by blast
    then show ?thesis
    proof cases
      case close
      have "advances s3 (next_character s3)" by simp
      also have "advances (next_character s3) (update_current_character (next_character s3))"
        by simp
      finally have "advances s (update_current_character (next_character s3))"
        using s3 by (rule advances_trans [rotated])
      with False r a close show ?thesis
        by (simp add: parse_data_string_loop.simps [of start_position data s] Let_def)
    next
      case esc
      obtain data2 s4 where e: "read_escape_character data1 s3 = (data2, s4)"
        by (cases "read_escape_character data1 s3") auto
      have "advances s3 s4" using advances_read_escape_character [of s3 data1] e by simp
      with s3 have "advances s s4" by (rule advances_trans)
      also have "advances s4 (snd (parse_data_string_loop start_position data2 s4))"
        using "1.IH" [OF False refl r [symmetric] a [symmetric] esc e [symmetric]] .
      finally show ?thesis using False r a esc e
        by (simp add: parse_data_string_loop.simps [of start_position data s] Let_def)
    next
      case nl
      have "advances s3 (error string_not_closed c_nullchar start_position s3)" by simp
      with s3 have "advances s (error string_not_closed c_nullchar start_position s3)"
        by (rule advances_trans)
      with False r a nl show ?thesis
        by (simp add: parse_data_string_loop.simps [of start_position data s] Let_def)
    qed
  qed
qed

lemma advances_parse_data_string_context:
  "advances (next_character s) (snd (parse_data_string_context s))"
  by (simp add: parse_data_string_context_def Let_def)

lemma advances_parse_data_identifier_context [simp]:
  "advances s (snd (parse_data_identifier_context s))"
proof -
  obtain n s1 where r: "read identifier_pred s = (n, s1)"
    by (cases "read identifier_pred s") auto
  have "advances s s1" using r [symmetric] by (rule read_advances_eq)
  also have "advances s1 (snd (append_buffer_string (make_data s) n s1))" by simp
  finally show ?thesis using r by (simp add: parse_data_identifier_context_def Let_def)
qed

lemma parse_data_identifier_context_progress:
  assumes "is_identifier (current_character s)"
  shows "buffer_position s < buffer_position (snd (parse_data_identifier_context s))"
proof -
  obtain n s1 where r: "read identifier_pred s = (n, s1)"
    by (cases "read identifier_pred s") auto
  from assms read_progress [of identifier_pred s] r
  have "buffer_position s < buffer_position s1" by (simp add: identifier_pred_def)
  then show ?thesis using r by (simp add: parse_data_identifier_context_def Let_def)
qed

subsection \<open>Blocks\<close>

definition parse_data_block_codec_context :: "parser \<Rightarrow> block_codec_type \<times> parser" where
  "parse_data_block_codec_context s =
     (let codec_start_position = buffer_position s
      in case read identifier_pred s of (n, s1) \<Rightarrow>
         (case source_view_before_current n s1 of (codec_start, codec_size) \<Rightarrow>
            (let codec = take codec_size (drop codec_start (source s1))
             in if codec = base64_codec then (Codec_base64, s1)
                else if codec \<noteq> text_codec then
                  (Codec_text, error bad_codec c_nullchar codec_start_position s1)
                else (Codec_text, s1))))"

lemma read_stops_eq:
  "(n, s') = read p s \<Longrightarrow> eof s' \<or> \<not> p s' (current_character s')"
  by (metis read_stops snd_conv)

lemma append_buffer_string_same_eq:
  "(d, s') = append_buffer_string data n s
   \<Longrightarrow> current_character s' = current_character s \<and> eof s' = eof s
       \<and> buffer_position s' = buffer_position s"
  by (metis append_buffer_fields(1) append_buffer_fields(2) eof_append_buffer(1) snd_conv)

function parse_block_line :: "data_type \<Rightarrow> parser \<Rightarrow> data_type \<times> parser" where
  "parse_block_line data s =
     (if \<not> eof s then
        (case read block_text s of (n, s1) \<Rightarrow>
           (case append_buffer_string data n s1 of (data1, s2) \<Rightarrow>
              if eof s2 then (data1, s2)
              else if is_newline (current_character s2) then
                (data1, update_current_character (next_character s2))
              else if is_escape_character_marker (current_character s2) then
                (case read_escape_character data1 s2 of (data2, s3) \<Rightarrow>
                   parse_block_line data2 s3)
              else parse_block_line data1 s2))
      else (data, s))"
  by pat_completeness auto
termination
proof (relation "measure (\<lambda>(data, s). length (source s) - buffer_position s)", goal_cases)
  case 1
  show ?case by simp
next
  case (2 data s n s1 data1 s2 data2 s3)
  have "advances s s1" using 2 by (auto dest: read_advances_eq)
  also have "advances s1 s2" using 2 by (auto dest: append_buffer_string_advances_eq)
  finally have "advances s s2" .
  moreover from 2 have "buffer_position s2 < buffer_position s3 \<and> length (source s3) = length (source s2)"
    by (auto dest: read_escape_character_progress_eq)
  ultimately show ?case using 2(1) by (auto simp: advances_def eof_def)
next
  case (3 data s n s1 data1 s2)
  from 3(2) have "eof s1 \<or> \<not> block_text s1 (current_character s1)" by (rule read_stops_eq)
  moreover from 3(3) have "current_character s2 = current_character s1 \<and> eof s2 = eof s1"
    by (auto dest: append_buffer_string_same_eq)
  ultimately have False using 3(4-6) by (auto simp: block_text_def)
  then show ?case ..
qed

declare parse_block_line.simps [simp del]

lemma parse_block_line_advances_progress:
  "advances s (snd (parse_block_line data s))
   \<and> (\<not> eof s \<longrightarrow> buffer_position s < buffer_position (snd (parse_block_line data s)))"
proof (induction data s rule: parse_block_line.induct)
  case (1 data s)
  show ?case
  proof (cases "eof s")
    case True
    then show ?thesis by (simp add: parse_block_line.simps [of data s])
  next
    case False
    obtain n s1 where r: "read block_text s = (n, s1)"
      by (cases "read block_text s") auto
    obtain data1 s2 where a: "append_buffer_string data n s1 = (data1, s2)"
      by (cases "append_buffer_string data n s1") auto
    have "advances s s1" using r [symmetric] by (rule read_advances_eq)
    also have "advances s1 s2" using a [symmetric] by (rule append_buffer_string_advances_eq)
    finally have s2: "advances s s2" .
    from a [symmetric] have same: "current_character s2 = current_character s1"
      "eof s2 = eof s1" "buffer_position s2 = buffer_position s1"
      by (auto dest: append_buffer_string_same_eq)
    from r [symmetric] have stops: "eof s1 \<or> \<not> block_text s1 (current_character s1)"
      by (rule read_stops_eq)
    consider (e) "eof s2"
      | (nl) "\<not> eof s2" "is_newline (current_character s2)"
      | (esc) "\<not> eof s2" "\<not> is_newline (current_character s2)"
          "is_escape_character_marker (current_character s2)"
      using stops same by (auto simp: block_text_def)
    then show ?thesis
    proof cases
      case e
      with False s2 have "buffer_position s < buffer_position s2"
        by (auto simp: eof_def advances_def)
      with False r a e s2 show ?thesis
        by (simp add: parse_block_line.simps [of data s])
    next
      case nl
      have "advances s2 (next_character s2)" by simp
      also have "advances (next_character s2) (update_current_character (next_character s2))"
        by simp
      finally have "advances s (update_current_character (next_character s2))"
        using s2 by (rule advances_trans [rotated])
      moreover have "buffer_position s < buffer_position (update_current_character (next_character s2))"
        using s2 next_character_position [of s2] by (simp add: advances_def)
      ultimately show ?thesis using False r a nl
        by (simp add: parse_block_line.simps [of data s])
    next
      case esc
      obtain data2 s3 where x: "read_escape_character data1 s2 = (data2, s3)"
        by (cases "read_escape_character data1 s2") auto
      from x [symmetric] have p: "buffer_position s2 < buffer_position s3"
        by (auto dest: read_escape_character_progress_eq)
      have "advances s2 s3" using advances_read_escape_character [of s2 data1] x by simp
      with s2 have s3: "advances s s3" by (rule advances_trans)
      have ih: "advances s3 (snd (parse_block_line data2 s3))"
        using "1.IH"(1) [OF False r [symmetric] a [symmetric] esc x [symmetric]] by simp
      from s3 ih have "advances s (snd (parse_block_line data2 s3))" by (rule advances_trans)
      moreover have "buffer_position s < buffer_position (snd (parse_block_line data2 s3))"
        using s2 p ih by (simp add: advances_def)
      ultimately show ?thesis using False r a esc x
        by (simp add: parse_block_line.simps [of data s])
    qed
  qed
qed

lemma advances_parse_block_line [simp]: "advances s (snd (parse_block_line data s))"
  using parse_block_line_advances_progress by blast

lemma parse_block_line_progress_eq:
  "(d, s') = parse_block_line data s \<Longrightarrow> \<not> eof s
   \<Longrightarrow> buffer_position s < buffer_position s' \<and> length (source s') = length (source s)"
  by (metis advances_length parse_block_line_advances_progress snd_conv)

lemma append_buffer_character_same_eq:
  "(d, s') = append_buffer_character data ch s
   \<Longrightarrow> current_character s' = current_character s \<and> eof s' = eof s
       \<and> buffer_position s' = buffer_position s"
  by (metis append_buffer_fields(4) append_buffer_fields(5) eof_append_buffer(2) snd_conv)

lemma skip_advances_eq: "(r, s') = skip p s \<Longrightarrow> advances s s'"
  by (metis advances_skip snd_conv)

text \<open>The \<open>while\<close> loop of \<open>parse_data_block_body_context\<close>.\<close>

function parse_data_block_body_loop ::
  "nat \<Rightarrow> bool \<Rightarrow> nat \<Rightarrow> data_type \<Rightarrow> bool \<Rightarrow> nat \<Rightarrow> parser \<Rightarrow> data_type \<times> parser" where
  "parse_data_block_body_loop start_position is_base64 column_depth data is_first_line
       current_column_start s =
     (if \<not> eof s then
        (if is_block_end_marker (current_character s)
            \<and> (buffer_position s - current_column_start < column_depth \<or> is_first_line)
         then (data, update_current_character (next_character s))
         else
           (let s1 = (if is_block_end_marker (current_character s)
                      then error bad_block_close c_nullchar (buffer_position s) s else s)
            in case (if \<not> is_first_line \<and> \<not> is_base64
                     then append_buffer_character data c_newline s1 else (data, s1))
               of (data1, s2) \<Rightarrow>
               (case parse_block_line data1 s2 of (data2, s3) \<Rightarrow>
                  (let current_column_start1 = buffer_position s3;
                       target_buffer_position = current_column_start1 + column_depth
                   in case skip (\<lambda>p cur. buffer_position p < target_buffer_position
                                         \<and> is_whitespace cur) s3
                      of (pos, s4) \<Rightarrow>
                        parse_data_block_body_loop start_position is_base64 column_depth data2
                          False current_column_start1 s4))))
      else (data, error block_not_closed c_nullchar start_position s))"
  by pat_completeness auto
termination
proof (relation "measure (\<lambda>(start_position, is_base64, column_depth, data, is_first_line,
    current_column_start, s). length (source s) - buffer_position s)", goal_cases)
  case 1
  show ?case by simp
next
  case (2 start_position is_base64 column_depth data is_first_line current_column_start s
      s1 data1 s2 data2 s3 current_column_start1 target_buffer_position pos s4)
  have a1: "advances s s1" using 2 by auto
  have a2: "advances s1 s2" using 2(4)
    by (auto split: if_splits dest: append_buffer_character_advances_eq)
  have "eof s1 = eof s" using 2(3) by simp
  moreover have "eof s2 = eof s1" using 2(4)
    by (auto split: if_splits dest: append_buffer_character_same_eq)
  ultimately have e2: "\<not> eof s2" using 2(1) by simp
  from 2(5) e2 have p: "buffer_position s2 < buffer_position s3
      \<and> length (source s3) = length (source s2)"
    by (rule parse_block_line_progress_eq)
  have a4: "advances s3 s4" using 2(8) by (rule skip_advances_eq)
  show ?case using 2(1) a1 a2 p a4 by (auto simp: advances_def eof_def)
qed

declare parse_data_block_body_loop.simps [simp del]

definition parse_data_block_body_context :: "nat \<Rightarrow> bool \<Rightarrow> parser \<Rightarrow> data_type \<times> parser" where
  "parse_data_block_body_context start_position is_base64 s =
     (let before_whitespace = buffer_position s;
          s1 = snd (skip whitespace s);
          column_depth = buffer_position s1 - before_whitespace;
          data = make_data s1
      in parse_data_block_body_loop start_position is_base64 column_depth data True
           before_whitespace s1)"

definition parse_data_block_context :: "parser \<Rightarrow> data_type \<times> parser" where
  "parse_data_block_context s =
     (let start_position = buffer_position s;
          s1 = update_current_character (next_character s)
      in case skip whitespace s1 of (pos, s2) \<Rightarrow>
         if pos = Eof then
           (let s3 = error block_not_closed c_nullchar start_position s2
            in (make_data s3, s3))
         else
           (case (if is_identifier (current_character s2)
                  then (case parse_data_block_codec_context s2 of (codec, s3) \<Rightarrow>
                          (codec = Codec_base64, s3))
                  else (False, s2))
            of (process_as_base64, s3) \<Rightarrow>
              (let s4 = skip_whitespace_until_newline s3
               in case parse_data_block_body_context start_position process_as_base64 s4
                  of (data, s5) \<Rightarrow>
                    if process_as_base64 then base64_convert data s5 else (data, s5))))"

definition parse_single_data :: "parser_data_type \<Rightarrow> parser \<Rightarrow> data_type \<times> parser" where
  "parse_single_data type s =
     (case type of
        PBlock \<Rightarrow> parse_data_block_context s
      | PString \<Rightarrow> parse_data_string_context s
      | PIdentifier \<Rightarrow> parse_data_identifier_context s
      | Not_a_data_type \<Rightarrow>
          (let s1 = error illegal_character (current_character s) (buffer_position s) s;
               s2 = update_current_character (next_character s1)
           in (make_data s2, s2)))"

lemma advances_parse_data_block_body_loop [simp]:
  "advances s (snd (parse_data_block_body_loop start_position is_base64 column_depth data
      is_first_line current_column_start s))"
proof (induction start_position is_base64 column_depth data is_first_line current_column_start s
    rule: parse_data_block_body_loop.induct)
  case (1 start_position is_base64 column_depth data is_first_line current_column_start s)
  note unfold = parse_data_block_body_loop.simps
    [of start_position is_base64 column_depth data is_first_line current_column_start s]
  show ?case
  proof (cases "eof s")
    case True
    then show ?thesis by (simp add: unfold)
  next
    case False
    show ?thesis
    proof (cases "is_block_end_marker (current_character s)
            \<and> (buffer_position s - current_column_start < column_depth \<or> is_first_line)")
      case True
      have "advances s (next_character s)" by simp
      also have "advances (next_character s) (update_current_character (next_character s))"
        by simp
      finally show ?thesis using True False by (simp add: unfold)
    next
      case no: False
      define s1 where "s1 = (if is_block_end_marker (current_character s)
                      then error bad_block_close c_nullchar (buffer_position s) s else s)"
      obtain data1 s2 where a: "(if \<not> is_first_line \<and> \<not> is_base64
                     then append_buffer_character data c_newline s1 else (data, s1)) = (data1, s2)"
        by (cases "(if \<not> is_first_line \<and> \<not> is_base64
                     then append_buffer_character data c_newline s1 else (data, s1))") auto
      obtain data2 s3 where l: "parse_block_line data1 s2 = (data2, s3)"
        by (cases "parse_block_line data1 s2") auto
      obtain pos s4 where k: "skip (\<lambda>p cur. buffer_position p < buffer_position s3 + column_depth
                                         \<and> is_whitespace cur) s3 = (pos, s4)"
        by (cases "skip (\<lambda>p cur. buffer_position p < buffer_position s3 + column_depth
                                         \<and> is_whitespace cur) s3") auto
      have "advances s s1" by (simp add: s1_def)
      also have "advances s1 s2" using a
        by (auto split: if_splits dest: append_buffer_character_advances_eq [OF sym])
      also have "advances s2 s3" using advances_parse_block_line [of s2 data1] l by simp
      also have "advances s3 s4" using k [symmetric] by (rule skip_advances_eq)
      also have "advances s4 (snd (parse_data_block_body_loop start_position is_base64
          column_depth data2 False (buffer_position s3) s4))"
        using "1.IH" [OF False no s1_def a [symmetric] l [symmetric] refl refl k [symmetric]] .
      finally show ?thesis using False no a l k
        by (auto simp: unfold Let_def s1_def [symmetric])
    qed
  qed
qed

lemma advances_parse_data_block_body_context [simp]:
  "advances s (snd (parse_data_block_body_context start_position is_base64 s))"
proof -
  have "advances s (snd (skip whitespace s))" by simp
  then show ?thesis
    unfolding parse_data_block_body_context_def Let_def
    by (rule advances_trans) simp
qed

lemma advances_parse_data_block_codec_context [simp]:
  "advances s (snd (parse_data_block_codec_context s))"
proof -
  obtain n s1 where r: "read identifier_pred s = (n, s1)"
    by (cases "read identifier_pred s") auto
  have 1: "advances s s1" using r [symmetric] by (rule read_advances_eq)
  have 2: "advances s (error bad_codec c_nullchar (buffer_position s) s1)"
    by (rule advances_trans [OF 1]) simp
  show ?thesis using r 1 2
    by (simp add: parse_data_block_codec_context_def Let_def source_view_before_current_def)
qed

lemma advances_parse_data_block_context_aux:
  "advances (update_current_character (next_character s)) (snd (parse_data_block_context s))"
proof -
  let ?s1 = "update_current_character (next_character s)"
  obtain pos s2 where k: "skip whitespace ?s1 = (pos, s2)"
    by (cases "skip whitespace ?s1") auto
  have a2: "advances ?s1 s2" using k [symmetric] by (rule skip_advances_eq)
  show ?thesis
  proof (cases "pos = Eof")
    case True
    have "advances ?s1 (error block_not_closed c_nullchar (buffer_position s) s2)"
      by (rule advances_trans [OF a2]) simp
    with True k show ?thesis by (simp add: parse_data_block_context_def Let_def)
  next
    case False
    obtain process_as_base64 s3 where c:
      "(if is_identifier (current_character s2)
                  then (case parse_data_block_codec_context s2 of (codec, s3) \<Rightarrow>
                          (codec = Codec_base64, s3))
                  else (False, s2)) = (process_as_base64, s3)"
      by (cases "(if is_identifier (current_character s2)
                  then (case parse_data_block_codec_context s2 of (codec, s3) \<Rightarrow>
                          (codec = Codec_base64, s3))
                  else (False, s2))") auto
    have a3: "advances s2 s3"
    proof (cases "is_identifier (current_character s2)")
      case True
      with c have "s3 = snd (parse_data_block_codec_context s2)"
        by (auto split: prod.splits)
      then show ?thesis by simp
    next
      case False
      with c show ?thesis by simp
    qed
    let ?s4 = "skip_whitespace_until_newline s3"
    obtain data s5 where b:
      "parse_data_block_body_context (buffer_position s) process_as_base64 ?s4 = (data, s5)"
      by (cases "parse_data_block_body_context (buffer_position s) process_as_base64 ?s4") auto
    have a5: "advances ?s4 s5"
      using advances_parse_data_block_body_context [of ?s4 "buffer_position s" process_as_base64] b
      by simp
    have a6: "advances s5 (snd (base64_convert data s5))" by simp
    note a2
    also note a3
    also have "advances s3 ?s4" by simp
    also note a5
    finally have s5: "advances ?s1 s5" .
    from s5 a6 have "advances ?s1 (snd (base64_convert data s5))" by (rule advances_trans)
    with s5 False k c b show ?thesis
      by (simp add: parse_data_block_context_def Let_def)
  qed
qed

lemma advances_parse_single_data [simp]: "advances s (snd (parse_single_data type s))"
proof (cases type)
  case PIdentifier
  then show ?thesis by (simp add: parse_single_data_def)
next
  case PString
  have "advances s (next_character s)" by simp
  also note advances_parse_data_string_context [of s]
  finally show ?thesis using PString by (simp add: parse_single_data_def)
next
  case PBlock
  have "advances s (next_character s)" by simp
  also have "advances (next_character s) (update_current_character (next_character s))" by simp
  also note advances_parse_data_block_context_aux [of s]
  finally show ?thesis using PBlock by (simp add: parse_single_data_def)
next
  case Not_a_data_type
  have "advances s (error illegal_character (current_character s) (buffer_position s) s)"
    by simp
  also have "advances \<dots> (next_character \<dots>)" by simp
  also have "advances \<dots> (update_current_character \<dots>)" by simp
  finally show ?thesis using Not_a_data_type by (simp add: parse_single_data_def Let_def)
qed

lemma parse_single_data_progress:
  assumes "type = detect_data_type s"
  shows "buffer_position s < buffer_position (snd (parse_single_data type s))"
proof (cases type)
  case PIdentifier
  with assms have "is_identifier (current_character s)"
    by (simp add: detect_data_type_def split: if_splits)
  with PIdentifier show ?thesis
    by (simp add: parse_single_data_def parse_data_identifier_context_progress)
next
  case PString
  from advances_parse_data_string_context [of s]
  have "buffer_position (next_character s) \<le> buffer_position (snd (parse_data_string_context s))"
    by (rule advances_position)
  with next_character_position [of s] PString show ?thesis by (simp add: parse_single_data_def)
next
  case PBlock
  from advances_parse_data_block_context_aux [of s]
  have "buffer_position (next_character s) \<le> buffer_position (snd (parse_data_block_context s))"
    by (simp add: advances_def)
  with next_character_position [of s] PBlock show ?thesis by (simp add: parse_single_data_def)
next
  case Not_a_data_type
  then show ?thesis
    using next_character_position
      [of "error illegal_character (current_character s) (buffer_position s) s"]
    by (simp add: parse_single_data_def Let_def)
qed

lemma parse_single_data_progress_eq:
  "(d, s') = parse_single_data (detect_data_type s) s
   \<Longrightarrow> buffer_position s < buffer_position s' \<and> advances s s'"
  by (metis advances_parse_single_data parse_single_data_progress snd_conv)

subsection \<open>Node contexts\<close>

lemma pair_snd_eq: "(a, b) = p \<Longrightarrow> b = snd p"
  by (metis snd_conv)

lemma skip_Valid_eq: "(Valid, s') = skip p s \<Longrightarrow> \<not> eof s' \<and> advances s s'"
  by (metis advances_skip skip_Valid_not_eof snd_conv)

lemma measure_lt:
  "advances s s1 \<Longrightarrow> \<not> eof s1 \<Longrightarrow> advances s1 s2 \<Longrightarrow> buffer_position s2 < buffer_position s3
   \<Longrightarrow> advances s2 s3
   \<Longrightarrow> length (source s3) - buffer_position s3 < length (source s) - buffer_position s"
  by (auto simp: advances_def eof_def)

lemma comment_step_eq:
  assumes "(type, s2) = (if is_comment_marker (current_character s1) then skip_comment s1
                         else (Not_a_comment, s1))"
  shows "advances s1 s2"
    and "is_comment_marker (current_character s1) \<Longrightarrow> type \<noteq> Not_a_comment
         \<Longrightarrow> buffer_position s1 < buffer_position s2"
proof -
  show "advances s1 s2"
    using assms advances_skip_comment [of s1]
    by (cases "is_comment_marker (current_character s1)") (auto dest: pair_snd_eq)
  show "buffer_position s1 < buffer_position s2"
    if "is_comment_marker (current_character s1)" "type \<noteq> Not_a_comment"
  proof -
    from assms that(1) have "type = fst (skip_comment s1)" "s2 = snd (skip_comment s1)"
      by (metis fst_conv, metis snd_conv)
    with that skip_comment_progress [of s1] show ?thesis by simp
  qed
qed

function parse_node_data_context ::
  "data_type basic_document \<Rightarrow> parser \<Rightarrow> data_type basic_document \<times> parser" where
  "parse_node_data_context node s =
     (case skip whitespace s of (pos, s1) \<Rightarrow>
        if pos = Valid then
          (case (if is_comment_marker (current_character s1) then skip_comment s1
                 else (Not_a_comment, s1))
           of (type, s2) \<Rightarrow>
             if is_comment_marker (current_character s1) \<and> type \<noteq> Not_a_comment then
               (if type = Passed_to_next_line then (node, s2)
                else parse_node_data_context node s2)
             else if is_end_of_data_context_marker (current_character s2) then
               (node, update_current_character (next_character s2))
             else if is_continue_data_context_on_next_line_marker (current_character s2) then
               parse_node_data_context node
                 (skip_whitespace_until_newline (update_current_character (next_character s2)))
             else if is_newline (current_character s2) then (node, s2)
             else
               (let dtype = detect_data_type s2
                in if dtype = Not_a_data_type then
                     parse_node_data_context node
                       (update_current_character (next_character
                          (error illegal_character (current_character s2) (buffer_position s2) s2)))
                   else
                     (case parse_single_data dtype s2 of (d, s3) \<Rightarrow>
                        parse_node_data_context
                          (Document (doc_id node) (doc_data node @ [d]) (doc_children node)) s3)))
        else (node, s1))"
  by pat_completeness auto
termination
proof (relation "measure (\<lambda>(node, s). length (source s) - buffer_position s)", goal_cases)
  case 1
  show ?case by simp
next
  case (2 node s pos s1 type s2)
  from 2(1,2) have v: "\<not> eof s1 \<and> advances s s1" by (auto dest: skip_Valid_eq)
  from comment_step_eq(2) [OF 2(3)] 2(4) have "buffer_position s1 < buffer_position s2" by simp
  with v comment_step_eq(1) [OF 2(3)] show ?case by (auto simp: advances_def eof_def)
next
  case (3 node s pos s1 type s2)
  from 3(1,2) have v: "\<not> eof s1 \<and> advances s s1" by (auto dest: skip_Valid_eq)
  let ?s3 = "update_current_character (next_character s2)"
  have "buffer_position s2 < buffer_position ?s3" using next_character_position [of s2] by simp
  moreover have "advances s2 ?s3" by (rule advances_trans [OF advances_next_character]) simp
  moreover have "advances ?s3 (skip_whitespace_until_newline ?s3)" by simp
  ultimately show ?case using v comment_step_eq(1) [OF 3(3)]
    by (auto simp: advances_def eof_def)
next
  case (4 node s pos s1 type s2 dtype)
  from 4(1,2) have v: "\<not> eof s1 \<and> advances s s1" by (auto dest: skip_Valid_eq)
  show ?case using v comment_step_eq(1) [OF 4(3)]
      next_character_position [of "error illegal_character (current_character s2) (buffer_position s2) s2"]
    by (auto simp: advances_def eof_def)
next
  case (5 node s pos s1 type s2 dtype d s3)
  from 5(1,2) have v: "\<not> eof s1 \<and> advances s s1" by (auto dest: skip_Valid_eq)
  from 5 have "buffer_position s2 < buffer_position s3 \<and> advances s2 s3"
    by (auto dest: parse_single_data_progress_eq)
  then show ?case using v comment_step_eq(1) [OF 5(3)]
    by (auto simp: advances_def eof_def)
qed

declare parse_node_data_context.simps [simp del]

definition parse_node_header_context ::
  "data_type basic_document \<Rightarrow> parser_data_type \<Rightarrow> parser \<Rightarrow> data_type basic_document \<times> parser"
  where
  "parse_node_header_context node header_data_type s =
     (case parse_single_data header_data_type s of (ident, s1) \<Rightarrow>
        (case parse_node_data_context (Document ident [] []) s1 of (tmp, s2) \<Rightarrow>
           (Document (doc_id node) (doc_data node) (doc_children node @ [tmp]), s2)))"

lemma advances_parse_node_data_context [simp]:
  "advances s (snd (parse_node_data_context node s))"
proof (induction node s rule: parse_node_data_context.induct)
  case (1 node s)
  note unfold = parse_node_data_context.simps [of node s]
  obtain pos s1 where k: "skip whitespace s = (pos, s1)"
    by (cases "skip whitespace s") auto
  have a1: "advances s s1" using k [symmetric] by (rule skip_advances_eq)
  show ?case
  proof (cases "pos = Valid")
    case False
    with k a1 show ?thesis by (simp add: unfold)
  next
    case True
    obtain type s2 where c: "(if is_comment_marker (current_character s1) then skip_comment s1
                 else (Not_a_comment, s1)) = (type, s2)"
      by (cases "(if is_comment_marker (current_character s1) then skip_comment s1
                 else (Not_a_comment, s1))") auto
    have a2: "advances s s2"
      using a1 comment_step_eq(1) [OF c [symmetric]] by (rule advances_trans)
    note ih = "1.IH" [OF k [symmetric] True c [symmetric]]
    consider (cmt_passed) "is_comment_marker (current_character s1) \<and> type \<noteq> Not_a_comment"
          "type = Passed_to_next_line"
      | (cmt_stayed) "is_comment_marker (current_character s1) \<and> type \<noteq> Not_a_comment"
          "type \<noteq> Passed_to_next_line"
      | (semi) "\<not> (is_comment_marker (current_character s1) \<and> type \<noteq> Not_a_comment)"
          "is_end_of_data_context_marker (current_character s2)"
      | (cont) "\<not> (is_comment_marker (current_character s1) \<and> type \<noteq> Not_a_comment)"
          "\<not> is_end_of_data_context_marker (current_character s2)"
          "is_continue_data_context_on_next_line_marker (current_character s2)"
      | (nl) "\<not> (is_comment_marker (current_character s1) \<and> type \<noteq> Not_a_comment)"
          "\<not> is_end_of_data_context_marker (current_character s2)"
          "\<not> is_continue_data_context_on_next_line_marker (current_character s2)"
          "is_newline (current_character s2)"
      | (illegal) "\<not> (is_comment_marker (current_character s1) \<and> type \<noteq> Not_a_comment)"
          "\<not> is_end_of_data_context_marker (current_character s2)"
          "\<not> is_continue_data_context_on_next_line_marker (current_character s2)"
          "\<not> is_newline (current_character s2)"
          "detect_data_type s2 = Not_a_data_type"
      | (data) "\<not> (is_comment_marker (current_character s1) \<and> type \<noteq> Not_a_comment)"
          "\<not> is_end_of_data_context_marker (current_character s2)"
          "\<not> is_continue_data_context_on_next_line_marker (current_character s2)"
          "\<not> is_newline (current_character s2)"
          "detect_data_type s2 \<noteq> Not_a_data_type"
      by blast
    then show ?thesis
    proof cases
      case cmt_passed
      with k True c a2 show ?thesis by (simp add: unfold)
    next
      case cmt_stayed
      from a2 ih(1) [OF cmt_stayed] have "advances s (snd (parse_node_data_context node s2))"
        by (rule advances_trans)
      with k True c cmt_stayed show ?thesis by (simp add: unfold)
    next
      case semi
      have "advances s2 (next_character s2)" by simp
      also have "advances \<dots> (update_current_character \<dots>)" by simp
      finally have "advances s (update_current_character (next_character s2))"
        using a2 by (rule advances_trans [rotated])
      with k True c semi show ?thesis by (auto simp: unfold)
    next
      case cont
      let ?s3 = "skip_whitespace_until_newline (update_current_character (next_character s2))"
      have "advances s2 (next_character s2)" by simp
      also have "advances \<dots> (update_current_character \<dots>)" by simp
      also have "advances \<dots> ?s3" by simp
      also note ih(2) [OF cont]
      finally have "advances s (snd (parse_node_data_context node ?s3))"
        using a2 by (rule advances_trans [rotated])
      with k True c cont show ?thesis by (auto simp: unfold)
    next
      case nl
      with k True c a2 show ?thesis by (auto simp: unfold)
    next
      case illegal
      let ?s3 = "update_current_character (next_character
                          (error illegal_character (current_character s2) (buffer_position s2) s2))"
      have "advances s2 (error illegal_character (current_character s2) (buffer_position s2) s2)"
        by simp
      also have "advances \<dots> (next_character \<dots>)" by simp
      also have "advances \<dots> (update_current_character \<dots>)" by simp
      also note ih(3) [OF illegal(1-4) refl illegal(5)]
      finally have "advances s (snd (parse_node_data_context node ?s3))"
        using a2 by (rule advances_trans [rotated])
      with k True c illegal show ?thesis by (auto simp: unfold Let_def)
    next
      case data
      obtain d s3 where p: "parse_single_data (detect_data_type s2) s2 = (d, s3)"
        by (cases "parse_single_data (detect_data_type s2) s2") auto
      have "advances s2 s3" using advances_parse_single_data [of s2 "detect_data_type s2"] p
        by simp
      also note ih(4) [OF data(1-4) refl data(5) p [symmetric]]
      finally have "advances s (snd (parse_node_data_context
          (Document (doc_id node) (doc_data node @ [d]) (doc_children node)) s3))"
        using a2 by (rule advances_trans [rotated])
      with k True c data p show ?thesis by (auto simp: unfold Let_def)
    qed
  qed
qed

lemma advances_parse_node_header_context [simp]:
  "advances s (snd (parse_node_header_context node header_data_type s))"
proof -
  obtain ident s1 where p: "parse_single_data header_data_type s = (ident, s1)"
    by (cases "parse_single_data header_data_type s") auto
  obtain tmp s2 where d: "parse_node_data_context (Document ident [] []) s1 = (tmp, s2)"
    by (cases "parse_node_data_context (Document ident [] []) s1") auto
  have "advances s s1" using advances_parse_single_data [of s header_data_type] p by simp
  also have "advances s1 s2"
    using advances_parse_node_data_context [of s1 "Document ident [] []"] d by simp
  finally show ?thesis using p d by (simp add: parse_node_header_context_def)
qed

lemma parse_node_header_context_progress:
  assumes "header_data_type = detect_data_type s"
  shows "buffer_position s < buffer_position (snd (parse_node_header_context node header_data_type s))"
proof -
  obtain ident s1 where p: "parse_single_data header_data_type s = (ident, s1)"
    by (cases "parse_single_data header_data_type s") auto
  obtain tmp s2 where d: "parse_node_data_context (Document ident [] []) s1 = (tmp, s2)"
    by (cases "parse_node_data_context (Document ident [] []) s1") auto
  have "buffer_position s < buffer_position s1"
    using parse_single_data_progress [OF assms] p by simp
  moreover have "advances s1 s2"
    using advances_parse_node_data_context [of s1 "Document ident [] []"] d by simp
  ultimately show ?thesis using p d by (simp add: parse_node_header_context_def advances_def)
qed

text \<open>
  One iteration of the loop of \<open>parse_node_body_context\<close>, up to the point where it
  touches the node: skipping whitespace, newlines and a comment, reading a nested-node
  marker, and classifying what follows.
\<close>

datatype node_body_event =
  End_of_source parser
  | Comment_skipped parser
  | Closing_marker nat parser
  | Node_header bool nat parser_data_type parser
  | Illegal_character parser

definition node_body_scan :: "parser \<Rightarrow> node_body_event" where
  "node_body_scan s =
     (case skip whitespace_and_newlines s of (pos, s1) \<Rightarrow>
        if pos = Valid then
          (case (if is_comment_marker (current_character s1) then skip_comment s1
                 else (Not_a_comment, s1))
           of (type, s2) \<Rightarrow>
             if is_comment_marker (current_character s1) \<and> type \<noteq> Not_a_comment then
               Comment_skipped s2
             else
               (let nested_start_pos = buffer_position s2;
                    is_nested = is_nested_node_marker (current_character s2);
                    s3 = (if is_nested then update_current_character (next_character s2) else s2)
                in if is_nested \<and> (eof s3 \<or> is_whitespace (current_character s3)
                                    \<or> is_newline (current_character s3))
                   then Closing_marker nested_start_pos s3
                   else
                     (let header_data_type = detect_data_type s3
                      in if header_data_type = PString \<or> header_data_type = PIdentifier then
                           Node_header is_nested nested_start_pos header_data_type s3
                         else
                           (let s4 = error illegal_character (current_character s3)
                                       (buffer_position s3) s3;
                                s5 = (if \<not> is_nested_node_marker (current_character s4)
                                      then update_current_character (next_character s4)
                                      else s4)
                            in Illegal_character s5))))
        else End_of_source s1)"

text \<open>
  What a scan has consumed. Unless it ran into the end of the source, the parser was not at
  the end before it; a skipped comment and an illegal character move the position.
\<close>

definition scan_state :: "node_body_event \<Rightarrow> parser" where
  "scan_state ev =
     (case ev of
        End_of_source s \<Rightarrow> s | Comment_skipped s \<Rightarrow> s | Closing_marker p s \<Rightarrow> s
      | Node_header n p t s \<Rightarrow> s | Illegal_character s \<Rightarrow> s)"

lemma node_body_scan_facts:
  shows scan_advances: "advances s (scan_state (node_body_scan s))"
    and scan_comment:
      "node_body_scan s = Comment_skipped s2 \<Longrightarrow>
         length (source s2) - buffer_position s2 < length (source s) - buffer_position s"
    and scan_illegal:
      "node_body_scan s = Illegal_character s2 \<Longrightarrow>
         length (source s2) - buffer_position s2 < length (source s) - buffer_position s"
    and scan_header:
      "node_body_scan s = Node_header n p t s3 \<Longrightarrow>
         \<not> eof s \<and> t = detect_data_type s3 \<and> p \<le> buffer_position s3"
proof -
  obtain pos s1 where k: "skip whitespace_and_newlines s = (pos, s1)"
    by (cases "skip whitespace_and_newlines s") auto
  have a1: "advances s s1" using k [symmetric] by (rule skip_advances_eq)
  obtain type sc where c: "(if is_comment_marker (current_character s1) then skip_comment s1
                 else (Not_a_comment, s1)) = (type, sc)"
    by (cases "(if is_comment_marker (current_character s1) then skip_comment s1
                 else (Not_a_comment, s1))") auto
  have ac: "advances s1 sc" using comment_step_eq(1) [OF c [symmetric]] .
  let ?is_nested = "is_nested_node_marker (current_character sc)"
  let ?s3 = "if ?is_nested then update_current_character (next_character sc) else sc"
  have a3: "advances sc ?s3"
    using advances_trans [OF advances_next_character advances_update(1), of sc] by simp
  let ?s4 = "error illegal_character (current_character ?s3) (buffer_position ?s3) ?s3"
  let ?s5 = "if \<not> is_nested_node_marker (current_character ?s4)
             then update_current_character (next_character ?s4) else ?s4"
  have a5: "advances ?s3 ?s5"
    using advances_trans [OF advances_error advances_trans
        [OF advances_next_character advances_update(1)],
        of ?s3 illegal_character "current_character ?s3" "buffer_position ?s3"]
    by simp
  have p5: "buffer_position sc < buffer_position ?s5"
  proof (cases ?is_nested)
    case True
    have "buffer_position sc < buffer_position ?s3"
      using True next_character_position [of sc] by simp
    with a5 show ?thesis by (simp add: advances_def)
  next
    case False
    then have "?s3 = sc" by simp
    then have "?s5 = update_current_character (next_character
        (error illegal_character (current_character sc) (buffer_position sc) sc))"
      using False by simp
    then show ?thesis
      using next_character_position
        [of "error illegal_character (current_character sc) (buffer_position sc) sc"]
      by simp
  qed
  have ev: "node_body_scan s =
     (if pos = Valid then
        (if is_comment_marker (current_character s1) \<and> type \<noteq> Not_a_comment then
           Comment_skipped sc
         else if ?is_nested \<and> (eof ?s3 \<or> is_whitespace (current_character ?s3)
                                    \<or> is_newline (current_character ?s3))
         then Closing_marker (buffer_position sc) ?s3
         else if detect_data_type ?s3 = PString \<or> detect_data_type ?s3 = PIdentifier
         then Node_header ?is_nested (buffer_position sc) (detect_data_type ?s3) ?s3
         else Illegal_character ?s5)
      else End_of_source s1)"
    unfolding node_body_scan_def k c Let_def prod.case by (rule refl)
  have valid: "pos = Valid \<Longrightarrow> \<not> eof s1" using k by (auto dest: skip_Valid_not_eof)
  have a13: "advances s ?s3" using a1 ac a3 by (blast intro: advances_trans)
  have a15: "advances s ?s5" using a13 a5 by (rule advances_trans)
  have a1c: "advances s sc" using a1 ac by (rule advances_trans)
  have lt: "\<not> eof s1 \<Longrightarrow> buffer_position s1 < buffer_position s' \<Longrightarrow> length (source s') = length (source s)
      \<Longrightarrow> length (source s') - buffer_position s' < length (source s) - buffer_position s" for s'
    using a1 by (auto simp: advances_def eof_def)
  show "advances s (scan_state (node_body_scan s))"
    unfolding ev scan_state_def using a1 a1c a13 a15 by (simp split: if_splits)
  show "length (source s2) - buffer_position s2 < length (source s) - buffer_position s"
    if "node_body_scan s = Comment_skipped s2"
  proof -
    from that have v: "pos = Valid" "is_comment_marker (current_character s1)"
        "type \<noteq> Not_a_comment" "s2 = sc"
      unfolding ev by (simp_all split: if_splits)
    have "buffer_position s1 < buffer_position sc"
      using comment_step_eq(2) [OF c [symmetric] v(2,3)] .
    moreover have "length (source sc) = length (source s)" using a1c by (simp add: advances_def)
    ultimately show ?thesis using lt [of sc] valid [OF v(1)] v(4) by simp
  qed
  show "length (source s2) - buffer_position s2 < length (source s) - buffer_position s"
    if "node_body_scan s = Illegal_character s2"
  proof -
    from that have v: "pos = Valid" "s2 = ?s5"
      unfolding ev by (simp_all split: if_splits)
    have "buffer_position s1 < buffer_position ?s5"
      using p5 ac by (simp add: advances_def)
    moreover have "length (source ?s5) = length (source s)" using a15 by (simp add: advances_def)
    ultimately show ?thesis using lt [of ?s5] valid [OF v(1)] unfolding v(2) by blast
  qed
  show "\<not> eof s \<and> t = detect_data_type s3 \<and> p \<le> buffer_position s3"
    if "node_body_scan s = Node_header n p t s3"
  proof -
    from that have v: "pos = Valid" "s3 = ?s3" "t = detect_data_type ?s3" "p = buffer_position sc"
      unfolding ev by (simp_all split: if_splits)
    have "\<not> eof s" using valid [OF v(1)] a1 by (simp add: advances_def eof_def)
    moreover have "p \<le> buffer_position s3" using a3 unfolding v(2,4) by (simp add: advances_def)
    ultimately show ?thesis using v(2,3) by simp
  qed
qed

function parse_node_body_context ::
  "data_type basic_document \<Rightarrow> nat \<Rightarrow> nat \<Rightarrow> parser \<Rightarrow> data_type basic_document \<times> parser"
  where
  "parse_node_body_context node current_recursion start_pos s =
     (case node_body_scan s of
        End_of_source s1 \<Rightarrow>
          (node, if current_recursion > 0
                 then error node_not_closed c_nullchar start_pos s1 else s1)
      | Comment_skipped s2 \<Rightarrow> parse_node_body_context node current_recursion start_pos s2
      | Closing_marker nested_start_pos s3 \<Rightarrow>
          (node, if current_recursion = 0
                 then error too_may_node_closing_markers c_nullchar nested_start_pos s3
                 else s3)
      | Node_header is_nested nested_start_pos header_data_type s3 \<Rightarrow>
          (case parse_node_header_context node header_data_type s3 of (node1, s4) \<Rightarrow>
             if current_recursion + 1 \<ge> recursion_limit s4 then
               parse_node_body_context node1 current_recursion start_pos
                 (snd (skip until_newline
                    (error recursion_limit_reached c_nullchar nested_start_pos s4)))
             else if is_nested then
               (case parse_node_body_context (last (doc_children node1))
                       (current_recursion + 1) nested_start_pos s4
                of (child, s5) \<Rightarrow>
                  parse_node_body_context
                    (Document (doc_id node1) (doc_data node1)
                       (butlast (doc_children node1) @ [child]))
                    current_recursion start_pos s5)
             else parse_node_body_context node1 current_recursion start_pos s4)
      | Illegal_character s5 \<Rightarrow> parse_node_body_context node current_recursion start_pos s5)"
  by pat_completeness auto

lemma parse_node_body_context_dom_advances:
  "parse_node_body_context_dom (node, current_recursion, start_pos, s)
   \<Longrightarrow> advances s (snd (parse_node_body_context node current_recursion start_pos s))"
proof (induction node current_recursion start_pos s rule: parse_node_body_context.pinduct)
  case (1 node current_recursion start_pos s)
  note unfold = parse_node_body_context.psimps [OF "1.hyps"]
  note scan = scan_advances [of s]
  show ?case
  proof (cases "node_body_scan s")
    case (End_of_source s1)
    with scan have "advances s s1" by (simp add: scan_state_def)
    then have "advances s (error node_not_closed c_nullchar start_pos s1)"
      by (rule advances_trans) simp
    with End_of_source \<open>advances s s1\<close> show ?thesis by (simp add: unfold)
  next
    case (Comment_skipped s2)
    with scan have "advances s s2" by (simp add: scan_state_def)
    also note "1.IH"(1) [OF Comment_skipped]
    finally show ?thesis using Comment_skipped by (simp add: unfold)
  next
    case (Closing_marker nested_start_pos s3)
    with scan have "advances s s3" by (simp add: scan_state_def)
    moreover from this
    have "advances s (error too_may_node_closing_markers c_nullchar nested_start_pos s3)"
      by (rule advances_trans) simp
    ultimately show ?thesis using Closing_marker by (simp add: unfold)
  next
    case (Node_header is_nested nested_start_pos header_data_type s3)
    with scan have a3: "advances s s3" by (simp add: scan_state_def)
    obtain node1 s4 where h: "parse_node_header_context node header_data_type s3 = (node1, s4)"
      by (cases "parse_node_header_context node header_data_type s3") auto
    have "advances s3 s4"
      using advances_parse_node_header_context [of s3 node header_data_type] h by simp
    with a3 have a4: "advances s s4" by (rule advances_trans)
    consider (limit) "recursion_limit s4 \<le> current_recursion + 1"
      | (nested) "\<not> recursion_limit s4 \<le> current_recursion + 1" "is_nested"
      | (plain) "\<not> recursion_limit s4 \<le> current_recursion + 1" "\<not> is_nested"
      by blast
    then show ?thesis
    proof cases
      case limit
      let ?s5 = "snd (skip until_newline
          (error recursion_limit_reached c_nullchar nested_start_pos s4))"
      have "advances s4 (error recursion_limit_reached c_nullchar nested_start_pos s4)"
        by simp
      also have "advances \<dots> ?s5" by simp
      also note "1.IH"(2) [OF Node_header h [symmetric] limit]
      finally have "advances s (snd (parse_node_body_context node1 current_recursion
          start_pos ?s5))"
        using a4 by (rule advances_trans [rotated])
      with Node_header h limit show ?thesis by (simp add: unfold)
    next
      case nested
      obtain child s5 where r: "parse_node_body_context (last (doc_children node1))
          (current_recursion + 1) nested_start_pos s4 = (child, s5)"
        by (cases "parse_node_body_context (last (doc_children node1))
          (current_recursion + 1) nested_start_pos s4") auto
      have "advances s4 s5" using "1.IH"(3) [OF Node_header h [symmetric] nested] r by simp
      also note "1.IH"(4) [OF Node_header h [symmetric] nested r [symmetric]]
      finally have "advances s (snd (parse_node_body_context
          (Document (doc_id node1) (doc_data node1) (butlast (doc_children node1) @ [child]))
          current_recursion start_pos s5))"
        using a4 by (rule advances_trans [rotated])
      with Node_header h nested r show ?thesis by (simp add: unfold)
    next
      case plain
      from a4 "1.IH"(5) [OF Node_header h [symmetric] plain]
      have "advances s (snd (parse_node_body_context node1 current_recursion start_pos s4))"
        by (rule advances_trans)
      with Node_header h plain show ?thesis by (simp add: unfold)
    qed
  next
    case (Illegal_character s5)
    with scan have "advances s s5" by (simp add: scan_state_def)
    also note "1.IH"(6) [OF Illegal_character]
    finally show ?thesis using Illegal_character by (simp add: unfold)
  qed
qed

lemma parse_node_body_context_total: "All parse_node_body_context_dom"
proof (relation "measure (\<lambda>(node, r, sp, s). length (source s) - buffer_position s)",
    goal_cases)
  case 1
  show ?case by simp
next
  case (2 node current_recursion start_pos s s2)
  with scan_comment [of s s2] show ?case by simp
next
  case (3 node current_recursion start_pos s is_nested nested_start_pos header_data_type s3
      node1 s4)
  note f = scan_header [OF 3(1)]
  have a3: "advances s s3" using scan_advances [of s] 3(1) by (simp add: scan_state_def)
  note s4 = 3(2) [THEN pair_snd_eq]
  have p: "buffer_position s3 < buffer_position s4"
    unfolding s4 using f by (intro parse_node_header_context_progress) simp
  have a: "advances s3 s4"
    unfolding s4 by (rule advances_parse_node_header_context)
  have "advances s4 (snd (skip until_newline
      (error recursion_limit_reached c_nullchar nested_start_pos s4)))"
    by (rule advances_trans [OF advances_error advances_skip])
  with f a3 p a show ?case by (auto simp: advances_def eof_def)
next
  case (4 node current_recursion start_pos s is_nested nested_start_pos header_data_type s3
      node1 s4)
  note f = scan_header [OF 4(1)]
  have a3: "advances s s3" using scan_advances [of s] 4(1) by (simp add: scan_state_def)
  note s4 = 4(2) [THEN pair_snd_eq]
  have p: "buffer_position s3 < buffer_position s4"
    unfolding s4 using f by (intro parse_node_header_context_progress) simp
  have a: "advances s3 s4"
    unfolding s4 by (rule advances_parse_node_header_context)
  with f a3 p a show ?case by (auto simp: advances_def eof_def)
next
  case (5 node current_recursion start_pos s is_nested nested_start_pos header_data_type s3
      node1 s4 child s5)
  note f = scan_header [OF 5(1)]
  have a3: "advances s s3" using scan_advances [of s] 5(1) by (simp add: scan_state_def)
  note s4 = 5(2) [THEN pair_snd_eq]
  have p: "buffer_position s3 < buffer_position s4"
    unfolding s4 using f by (intro parse_node_header_context_progress) simp
  have a: "advances s3 s4"
    unfolding s4 by (rule advances_parse_node_header_context)
  have "advances s4 s5"
    using parse_node_body_context_dom_advances [OF 5(6)] unfolding 5(5) [THEN pair_snd_eq] .
  with f a3 p a show ?case by (auto simp: advances_def eof_def)
next
  case (6 node current_recursion start_pos s is_nested nested_start_pos header_data_type s3
      node1 s4)
  note f = scan_header [OF 6(1)]
  have a3: "advances s s3" using scan_advances [of s] 6(1) by (simp add: scan_state_def)
  note s4 = 6(2) [THEN pair_snd_eq]
  have p: "buffer_position s3 < buffer_position s4"
    unfolding s4 using f by (intro parse_node_header_context_progress) simp
  have a: "advances s3 s4"
    unfolding s4 by (rule advances_parse_node_header_context)
  with f a3 p a show ?case by (auto simp: advances_def eof_def)
next
  case (7 node current_recursion start_pos s s5)
  with scan_illegal [of s s5] show ?case by simp
qed

termination parse_node_body_context
  by (rule parse_node_body_context_total)

declare parse_node_body_context.simps [simp del]

lemma advances_parse_node_body_context [simp]:
  "advances s (snd (parse_node_body_context node current_recursion start_pos s))"
  by (rule parse_node_body_context_dom_advances) (rule parse_node_body_context_total [THEN spec])

section \<open>Loading (nepeta\_parser.h)\<close>

text \<open>
  \<open>load_into\<close> and \<open>load_into_view\<close> construct the parser over the source and run
  \<open>parse_node_body_context\<close> on the document with the default arguments
  \<open>current_recursion = 0\<close>, \<open>start_pos = 0\<close>. The model returns the document together with
  the final parser state, which holds the calls made to the error handler and, for the view
  variant, the source buffer as the parser left it.
\<close>

definition load_into :: "data_type basic_document \<Rightarrow> string \<Rightarrow> data_type basic_document \<times> parser"
  where
  "load_into doc src = parse_node_body_context doc 0 0 (nepeta_parser Parser_document src)"

definition load :: "string \<Rightarrow> data_type basic_document \<times> parser" where
  "load src = load_into (Document (Owned []) [] []) src"

definition load_into_view ::
  "data_type basic_document \<Rightarrow> string \<Rightarrow> data_type basic_document \<times> parser" where
  "load_into_view doc src =
     parse_node_body_context doc 0 0 (nepeta_parser Parser_document_view src)"

definition load_view :: "string \<Rightarrow> data_type basic_document \<times> parser" where
  "load_view src = load_into_view (Document (View 0 0) [] []) src"

text \<open>
  The bytes a value stands for: an owned string is its bytes; a slice is read from the
  buffer it points into.
\<close>

definition data_value :: "string \<Rightarrow> data_type \<Rightarrow> string" where
  "data_value buf d = (case d of Owned str \<Rightarrow> str | View start n \<Rightarrow> take n (drop start buf))"

fun document_value :: "string \<Rightarrow> data_type basic_document \<Rightarrow> document" where
  "document_value buf (Document i d cs) =
     Document (data_value buf i) (map (data_value buf) d) (map (document_value buf) cs)"

text \<open>The tree read out of a finished parse.\<close>

definition loaded_document :: "data_type basic_document \<times> parser \<Rightarrow> document" where
  "loaded_document r = document_value (source (snd r)) (fst r)"

text \<open>Nesting depth: the node itself is at depth 0, its children at depth 1.\<close>

fun depth :: "'d basic_document \<Rightarrow> nat" where
  "depth (Document i d cs) = foldr (\<lambda>c m. max (Suc (depth c)) m) cs 0"

section \<open>The error quota\<close>

lemma error_function_calls_bound:
  "advances s s' \<Longrightarrow>
     length (error_function_calls s') \<le> length (error_function_calls s) + error_limit s"
  by (simp add: advances_def)

lemma error_limit_nepeta_parser [simp]:
  "error_limit (nepeta_parser spec src) = default_maximum_error_limit"
  "error_function_calls (nepeta_parser spec src) = []"
  "recursion_limit (nepeta_parser spec src) = default_recursion_limit"
  by (simp_all add: nepeta_parser_def)

text \<open>
  Eleven illegal characters at the top level: the handler is called for the first ten.
\<close>

lemma error_limit_reached_example:
  "map fst (error_function_calls (snd (load ''}}}}}}}}}}}''))) = replicate 10 illegal_character
   \<and> error_limit (snd (load ''}}}}}}}}}}}'')) = 0
   \<and> buffer_position (snd (load ''}}}}}}}}}}}'')) = 11"
  by code_simp

text \<open>
  Claim C6. A parse calls the error handler at most \<open>default_maximum_error_limit\<close> (10) times,
  with the owned and with the view variant, whatever the source and the document parsed
  into; in general at most as often as the quota \<open>error_limit\<close> the parser starts with. The
  calls made and the quota left always add up to the initial quota, and with the quota at 0
  \<open>error\<close> leaves the parser as it is: no call, and parsing goes on (every function of the
  parser is total).
\<close>

theorem error_handler_call_limit:
  "length (error_function_calls (snd (load_into doc src))) \<le> default_maximum_error_limit
   \<and> length (error_function_calls (snd (load_into_view doc src))) \<le> default_maximum_error_limit
   \<and> length (error_function_calls (snd (parse_node_body_context node r p s)))
       + error_limit (snd (parse_node_body_context node r p s))
       = length (error_function_calls s) + error_limit s
   \<and> error type ch bufpos (s\<lparr>error_limit := 0\<rparr>) = s\<lparr>error_limit := 0\<rparr>"
proof -
  have a: "advances s (snd (parse_node_body_context node r p s))" for node r p s
    by (rule advances_parse_node_body_context)
  have "length (error_function_calls (snd (load_into doc src))) \<le> default_maximum_error_limit"
    using error_function_calls_bound [OF a [of "nepeta_parser Parser_document src" doc 0 0]]
    by (simp add: load_into_def)
  moreover
  have "length (error_function_calls (snd (load_into_view doc src)))
      \<le> default_maximum_error_limit"
    using error_function_calls_bound [OF a [of "nepeta_parser Parser_document_view src" doc 0 0]]
    by (simp add: load_into_view_def)
  moreover
  have "length (error_function_calls (snd (parse_node_body_context node r p s)))
       + error_limit (snd (parse_node_body_context node r p s))
       = length (error_function_calls s) + error_limit s"
    using a [of s node r p] by (simp add: advances_def)
  moreover
  have "error type ch bufpos (s\<lparr>error_limit := 0\<rparr>) = s\<lparr>error_limit := 0\<rparr>"
    by (simp add: error_def)
  ultimately show ?thesis by blast
qed

section \<open>Nesting depth\<close>

lemma foldr_depth_max:
  "foldr (\<lambda>c m. max (Suc (depth c)) m) cs a
     = max (foldr (\<lambda>c m. max (Suc (depth c)) m) cs 0) a"
  by (induction cs) auto

lemma depth_snoc:
  "depth (Document i d (cs @ [c])) = max (depth (Document i d cs)) (Suc (depth c))"
  using foldr_depth_max [of cs "Suc (depth c)"] by simp

lemma depth_fields: "depth node = depth (Document i d (doc_children node))"
  by (cases node) simp

lemma doc_children_parse_node_data_context:
  "doc_children (fst (parse_node_data_context node s)) = doc_children node"
proof (induction node s rule: parse_node_data_context.induct)
  case (1 node s)
  show ?case
    apply (subst parse_node_data_context.simps)
    using 1 apply (auto split: prod.splits simp: Let_def)
    done
qed

lemma parse_node_header_context_child:
  "\<exists>tmp. fst (parse_node_header_context node t s)
            = Document (doc_id node) (doc_data node) (doc_children node @ [tmp])
         \<and> doc_children tmp = []"
proof -
  obtain ident s1 where p: "parse_single_data t s = (ident, s1)"
    by (cases "parse_single_data t s") auto
  obtain tmp s2 where d: "parse_node_data_context (Document ident [] []) s1 = (tmp, s2)"
    by (cases "parse_node_data_context (Document ident [] []) s1") auto
  have "doc_children tmp = []"
    using doc_children_parse_node_data_context [of "Document ident [] []" s1] d by simp
  then show ?thesis using p d by (simp add: parse_node_header_context_def)
qed

lemma depth_leaf: "doc_children node = [] \<Longrightarrow> depth node = 0"
  by (cases node) simp

lemma recursion_limit_advances: "advances s s' \<Longrightarrow> recursion_limit s' = recursion_limit s"
  by (simp add: advances_def)

lemma depth_parse_node_body_context:
  "depth (fst (parse_node_body_context node r sp s))
     \<le> max (depth node) (max 1 (recursion_limit s - r))"
proof (induction node r sp s rule: parse_node_body_context.induct)
  case (1 node current_recursion start_pos s)
  note unfold = parse_node_body_context.simps [of node current_recursion start_pos s]
  note scan = scan_advances [of s]
  show ?case
  proof (cases "node_body_scan s")
    case (End_of_source s1)
    then show ?thesis by (simp add: unfold)
  next
    case (Comment_skipped s2)
    with scan have "recursion_limit s2 = recursion_limit s"
      by (simp add: scan_state_def advances_def)
    with "1.IH"(1) [OF Comment_skipped] Comment_skipped show ?thesis by (simp add: unfold)
  next
    case (Closing_marker nested_start_pos s3)
    then show ?thesis by (simp add: unfold)
  next
    case (Node_header is_nested nested_start_pos header_data_type s3)
    with scan have a3: "advances s s3" by (simp add: scan_state_def)
    obtain node1 s4 where h: "parse_node_header_context node header_data_type s3 = (node1, s4)"
      by (cases "parse_node_header_context node header_data_type s3") auto
    have "advances s3 s4"
      using advances_parse_node_header_context [of s3 node header_data_type] h by simp
    with a3 have a4: "advances s s4" by (rule advances_trans)
    then have l4: "recursion_limit s4 = recursion_limit s" by (rule recursion_limit_advances)
    obtain tmp where n1: "node1 = Document (doc_id node) (doc_data node) (doc_children node @ [tmp])"
      and tmp: "doc_children tmp = []"
      using parse_node_header_context_child [of node header_data_type s3] h by auto
    have dtmp: "depth tmp = 0" using tmp by (rule depth_leaf)
    have d1: "depth node1 = max (depth node) 1"
      unfolding n1 depth_snoc dtmp using depth_fields [of node "doc_id node" "doc_data node"]
      by simp
    consider (limit) "recursion_limit s4 \<le> current_recursion + 1"
      | (nested) "\<not> recursion_limit s4 \<le> current_recursion + 1" "is_nested"
      | (plain) "\<not> recursion_limit s4 \<le> current_recursion + 1" "\<not> is_nested"
      by blast
    then show ?thesis
    proof cases
      case limit
      let ?s5 = "snd (skip until_newline
          (error recursion_limit_reached c_nullchar nested_start_pos s4))"
      have "advances s4 ?s5" by (rule advances_trans [OF advances_error advances_skip])
      then have l5: "recursion_limit ?s5 = recursion_limit s" using l4
        by (simp add: advances_def)
      from "1.IH"(2) [OF Node_header h [symmetric] limit] l5 d1
      have "depth (fst (parse_node_body_context node1 current_recursion start_pos ?s5))
          \<le> max (depth node) (max 1 (recursion_limit s - current_recursion))"
        by simp
      with Node_header h limit show ?thesis by (simp add: unfold)
    next
      case nested
      obtain child s5 where r: "parse_node_body_context (last (doc_children node1))
          (current_recursion + 1) nested_start_pos s4 = (child, s5)"
        by (cases "parse_node_body_context (last (doc_children node1))
          (current_recursion + 1) nested_start_pos s4") auto
      have "advances s4 (snd (parse_node_body_context (last (doc_children node1))
          (current_recursion + 1) nested_start_pos s4))"
        by (rule advances_parse_node_body_context)
      then have "advances s4 s5" unfolding r by simp
      then have l5: "recursion_limit s5 = recursion_limit s" using l4
        by (simp add: advances_def)
      have lst: "last (doc_children node1) = tmp" "butlast (doc_children node1) = doc_children node"
        unfolding n1 by simp_all
      from "1.IH"(3) [OF Node_header h [symmetric] nested] r
      have "depth child \<le> max (depth tmp) (max 1 (recursion_limit s4 - (current_recursion + 1)))"
        unfolding lst by simp
      with nested(1) dtmp l4
      have dc: "Suc (depth child) \<le> recursion_limit s - current_recursion" by simp
      let ?node2 = "Document (doc_id node1) (doc_data node1)
          (butlast (doc_children node1) @ [child])"
      have d2: "depth ?node2 = max (depth node) (Suc (depth child))"
        unfolding lst depth_snoc
        using depth_fields [of node "doc_id node1" "doc_data node1"] by simp
      from "1.IH"(4) [OF Node_header h [symmetric] nested r [symmetric]] l5 d2 dc
      have "depth (fst (parse_node_body_context ?node2 current_recursion start_pos s5))
          \<le> max (depth node) (max 1 (recursion_limit s - current_recursion))"
        by simp
      with Node_header h nested r show ?thesis by (simp add: unfold)
    next
      case plain
      from "1.IH"(5) [OF Node_header h [symmetric] plain] l4 d1
      have "depth (fst (parse_node_body_context node1 current_recursion start_pos s4))
          \<le> max (depth node) (max 1 (recursion_limit s - current_recursion))"
        by simp
      with Node_header h plain show ?thesis by (simp add: unfold)
    qed
  next
    case (Illegal_character s5)
    with scan have "recursion_limit s5 = recursion_limit s"
      by (simp add: scan_state_def advances_def)
    with "1.IH"(6) [OF Illegal_character] Illegal_character show ?thesis by (simp add: unfold)
  qed
qed

text \<open>
  With a recursion limit of 0 a header at the top level still makes a child: the tree has
  depth 1, above the limit.
\<close>

theorem depth_exceeds_recursion_limit_zero:
  "depth (fst (parse_node_body_context (Document (Owned []) [] []) 0 0
             ((nepeta_parser Parser_document ''a'')\<lparr>recursion_limit := 0\<rparr>))) = 1
   \<and> recursion_limit ((nepeta_parser Parser_document ''a'')\<lparr>recursion_limit := 0\<rparr>) = 0"
  by code_simp

text \<open>
  Claim C5, amended. Parsing into a node without children gives a tree of depth at most
  \<open>max 1 recursion_limit\<close>: at most the recursion limit when that is 1 or more, and at most
  1 when it is 0. With the default limit the trees that \<open>load\<close> and \<open>load_view\<close> return have
  depth at most \<open>default_recursion_limit\<close> (2000).
\<close>

theorem depth_within_recursion_limit:
  "depth (fst (parse_node_body_context (Document i d []) 0 start_pos s))
     \<le> max 1 (recursion_limit s)
   \<and> depth (fst (load src)) \<le> default_recursion_limit
   \<and> depth (fst (load_view src)) \<le> default_recursion_limit"
proof -
  have g: "depth (fst (parse_node_body_context (Document i d []) 0 start_pos s))
     \<le> max 1 (recursion_limit s)" for i d start_pos s
    using depth_parse_node_body_context [of "Document i d []" 0 start_pos s] by simp
  have "depth (fst (load src)) \<le> default_recursion_limit"
    using g [of "Owned []" "[]" 0 "nepeta_parser Parser_document src"]
    by (simp add: load_def load_into_def default_recursion_limit_def)
  moreover have "depth (fst (load_view src)) \<le> default_recursion_limit"
    using g [of "View 0 0" "[]" 0 "nepeta_parser Parser_document_view src"]
    by (simp add: load_view_def load_into_view_def default_recursion_limit_def)
  ultimately show ?thesis using g by blast
qed

section \<open>Closing markers at the top level\<close>

lemma node_body_scan_closing_marker:
  assumes "skip whitespace_and_newlines s = (Valid, s1)"
    and "is_nested_node_marker (current_character s1)"
    and "s3 = update_current_character (next_character s1)"
    and "eof s3 \<or> is_whitespace (current_character s3) \<or> is_newline (current_character s3)"
  shows "node_body_scan s = Closing_marker (buffer_position s1) s3"
proof -
  have "\<not> is_comment_marker (current_character s1)"
    using assms(2) by (simp add: is_nested_node_marker_def is_comment_marker_def char_consts)
  then show ?thesis
    using assms by (simp add: node_body_scan_def Let_def)
qed

text \<open>
  A lone \<open>#\<close> after a space, parsed with \<open>load\<close>: the node-body context of the top level was
  opened at position 0, which is line 1, column 1; the handler is called with line 1,
  column 2, where the \<open>#\<close> is.
\<close>

theorem closing_marker_not_reported_at_opening_position:
  "error_function_calls (snd (load '' #'')) = [(too_may_node_closing_markers, c_nullchar, 1, 2)]
   \<and> line_column_from_buffer_position '' #'' 0 = (1, 1)"
  by code_simp

text \<open>
  Claim C7, amended. When the loop of \<open>parse_node_body_context\<close> at recursion level 0 has
  skipped whitespace and newlines and stands on a \<open>#\<close> that is followed by the end of the
  source, whitespace or a newline, it reports \<open>too_may_node_closing_markers\<close> at the
  position of that \<open>#\<close> (not at the opening position \<open>start_pos\<close> of the context) and
  returns to the caller with the node as it is.
\<close>

theorem closing_marker_at_top_level:
  assumes "skip whitespace_and_newlines s = (Valid, s1)"
    and "is_nested_node_marker (current_character s1)"
    and "s3 = update_current_character (next_character s1)"
    and "eof s3 \<or> is_whitespace (current_character s3) \<or> is_newline (current_character s3)"
  shows "parse_node_body_context node 0 start_pos s
           = (node, error too_may_node_closing_markers c_nullchar (buffer_position s1) s3)"
  using node_body_scan_closing_marker [OF assms]
  by (simp add: parse_node_body_context.simps [of node 0 start_pos s])

lemma closing_marker_example_skip:
  "skip whitespace_and_newlines (nepeta_parser Parser_document ''a #'' \<lparr>buffer_position := 1, current_character := CHR '' ''\<rparr>)
     = (Valid, nepeta_parser Parser_document ''a #'' \<lparr>buffer_position := 2, current_character := CHR ''#''\<rparr>)"
  by code_simp

lemma closing_marker_example_marker:
  "is_nested_node_marker (current_character
     (nepeta_parser Parser_document ''a #'' \<lparr>buffer_position := 2, current_character := CHR ''#''\<rparr>))"
  by code_simp

lemma closing_marker_example_next:
  "nepeta_parser Parser_document ''a #'' \<lparr>buffer_position := 3, current_character := c_nullchar\<rparr>
     = update_current_character (next_character
         (nepeta_parser Parser_document ''a #'' \<lparr>buffer_position := 2, current_character := CHR ''#''\<rparr>))"
  by code_simp

lemma closing_marker_example_eof:
  "eof (nepeta_parser Parser_document ''a #'' \<lparr>buffer_position := 3, current_character := c_nullchar\<rparr>)"
  by code_simp

theorem closing_marker_at_top_level_witness:
  "parse_node_body_context (Document (Owned []) [] [Document (Owned ''a'') [] []]) 0 0
     (nepeta_parser Parser_document ''a #'' \<lparr>buffer_position := 1, current_character := CHR '' ''\<rparr>)
   = (Document (Owned []) [] [Document (Owned ''a'') [] []],
      error too_may_node_closing_markers c_nullchar 2
        (nepeta_parser Parser_document ''a #'' \<lparr>buffer_position := 3, current_character := c_nullchar\<rparr>))"
  using closing_marker_at_top_level [OF closing_marker_example_skip closing_marker_example_marker
      closing_marker_example_next, of "Document (Owned []) [] [Document (Owned ''a'') [] []]" 0]
    closing_marker_example_eof
  by simp

section \<open>Writing and parsing back\<close>

lemmas writer_eval =
  write_to_string_def write_data_def determine_data_type_def default_writer_parameters_def
  write_newline_def write_indentation_def indentation_char_def write_string_def write_block_def
  write_base64_def Let_def classifier_defs char_consts

lemma write_comment_like_value:
  "write_to_string (Document [] [] [Document ''k'' [''//''] []]) default_writer_parameters
     = ''k //'' @ [c_newline]"
  by (simp add: writer_eval)

lemma load_comment_like_value:
  "loaded_document (load (''k //'' @ [c_newline])) = Document [] [] [Document ''k'' [] []]"
  by code_simp

lemma load_view_comment_like_value:
  "loaded_document (load_view (''k //'' @ [c_newline])) = Document [] [] [Document ''k'' [] []]"
  by code_simp

text \<open>
  Claim C1 says that the parser reads a written tree back unchanged when the root has no
  identifier and no data. A child \<open>k\<close> with the single value \<open>//\<close> is written, with the
  default parameters, as the line \<open>k //\<close>: the value consists of identifier characters, so
  the writer emits it bare. The parser takes \<open>//\<close> for a comment and returns \<open>k\<close> without
  data.
\<close>

theorem write_then_load_loses_comment_like_value:
  "write_to_string (Document [] [] [Document ''k'' [''//''] []]) default_writer_parameters
     = ''k //'' @ [c_newline]
   \<and> loaded_document (load (write_to_string (Document [] [] [Document ''k'' [''//''] []])
         default_writer_parameters))
     = Document [] [] [Document ''k'' [] []]
   \<and> loaded_document (load_view (write_to_string (Document [] [] [Document ''k'' [''//''] []])
         default_writer_parameters))
     = Document [] [] [Document ''k'' [] []]"
  unfolding write_comment_like_value
  by (intro conjI refl load_comment_like_value load_view_comment_like_value)

text \<open>
  An identifier that opens a multi-line comment takes the rest of the file with it.
\<close>

lemma write_comment_like_identifier:
  "write_to_string (Document [] [] [Document ''/*'' [''a''] [], Document ''b'' [] []])
       default_writer_parameters
     = ''/* a'' @ [c_newline] @ ''b'' @ [c_newline]"
  by (simp add: writer_eval)

lemma load_comment_like_identifier:
  "loaded_document (load (''/* a'' @ [c_newline] @ ''b'' @ [c_newline])) = Document [] [] []"
  by code_simp

text \<open>
  A child with the empty identifier is written without one (\<open>determine_identifier_type\<close>
  answers identifier for the empty string), and its first value is read back as the
  identifier.
\<close>

lemma write_empty_identifier:
  "write_to_string (Document [] [] [Document [] [''x''] []]) default_writer_parameters
     = '' x'' @ [c_newline]"
  by (simp add: writer_eval)

lemma load_empty_identifier:
  "loaded_document (load ('' x'' @ [c_newline])) = Document [] [] [Document ''x'' [] []]"
  by code_simp

end
